theory Spec2Isabelle
  imports Complex_Main "HOL-Library.Word" "HOL-Library.Sublist"
begin

section \<open>The C++ wrapper of libfreenect (include/libfreenect.hpp)\<close>

text \<open>
  The header wraps the C driver in two classes: \<open>FreenectDevice\<close>, one opened Kinect,
  and the template \<open>Freenect<T>\<close>, which owns the driver context, the thread that pumps
  the driver's events and a \<open>std::map<int, T*>\<close> of the devices it created.

  The embedding is a state-passing one. A \<open>world\<close> holds what lives outside the
  \<open>Freenect\<close> object: the C++ heap of device objects, the driver's own tables, and a
  log of every call made to the driver. Every \<open>throw\<close> of the header is an \<open>Inl\<close>
  result; the world after the throw is returned with it, so that what a failing
  operation leaves behind can be inspected.
\<close>

subsection \<open>Values\<close>

type_synonym ptr = nat
  \<comment> \<open>an address: \<open>freenect_context*\<close>, \<open>freenect_device*\<close>, \<open>T*\<close>, a frame buffer; 0 is NULL\<close>
type_synonym pthread_t = nat
type_synonym uint32_t = "32 word"
type_synonym int16_t = "16 word"

text \<open>
  C's \<open>int\<close> (a device index, a status, an LED option) is \<open>int\<close> and \<open>double\<close> is \<open>real\<close>:
  the header passes these values on and compares a status with zero, and computes nothing
  with them.
\<close>

text \<open>The enumerators of \<open>libfreenect.h\<close> that the header names.\<close>

datatype freenect_rgb_format = FREENECT_FORMAT_RGB
datatype freenect_depth_format = FREENECT_FORMAT_11_BIT

text \<open>The two static member functions whose addresses are handed to the driver.\<close>

datatype callback_fn = Fn_freenect_depth_callback | Fn_freenect_rgb_callback

text \<open>
  Everything the header throws is a \<open>std::runtime_error\<close> with a message;
  \<open>std::map::at\<close> throws \<open>std::out_of_range\<close>. Dereferencing a null or dangling
  pointer has no defined behaviour in C++; the model stops there with
  \<open>undefined_behaviour\<close>.
\<close>

datatype error = runtime_error string | out_of_range | undefined_behaviour

abbreviation InitError :: error where
  "InitError \<equiv> runtime_error ''Cannot initialize freenect library''"
abbreviation ThreadStartError :: error where
  "ThreadStartError \<equiv> runtime_error ''Cannot initialize freenect thread''"
abbreviation ShutdownError :: error where
  "ShutdownError \<equiv> runtime_error ''Cannot cleanup freenect library''"
abbreviation DeviceOpenError :: error where
  "DeviceOpenError \<equiv> runtime_error ''Cannot open Kinect''"
abbreviation DeviceCloseError :: error where
  "DeviceCloseError \<equiv> runtime_error ''Cannot shutdown Kinect''"
abbreviation EventProcessingError :: error where
  "EventProcessingError \<equiv> runtime_error ''Cannot process freenect events''"

subsection \<open>The driver and the world\<close>

text \<open>The calls the header makes into \<open>libfreenect.h\<close> and \<open>pthread.h\<close>, with their arguments.\<close>

datatype call =
    Init
  | Shutdown ptr
  | NumDevices ptr
  | OpenDevice ptr int
  | CloseDevice ptr
  | SetUser ptr ptr
  | GetUser ptr
  | SetRgbFormat ptr freenect_rgb_format
  | SetDepthFormat ptr freenect_depth_format
  | SetDepthCallback ptr callback_fn
  | SetRgbCallback ptr callback_fn
  | RgbStart ptr
  | RgbStop ptr
  | DepthStart ptr
  | DepthStop ptr
  | SetTiltDegs ptr real
  | SetLedOption ptr int
  | GetMksAccel ptr
  | GetRawAccel ptr
  | ProcessEvents ptr
  | PthreadCreate
  | PthreadJoin pthread_t

text \<open>
  The log records, in order, each call, each write of \<open>m_stop = true\<close>, and each
  invocation of the virtual \<open>DepthCallback\<close> / \<open>RGBCallback\<close> of a device object
  (the object's address, the buffer, the timestamp).
\<close>

datatype event =
    Call call
  | StopSignalled
  | DepthCallback ptr ptr uint32_t
  | RGBCallback ptr ptr uint32_t

text \<open>
  Modelled from the spec: the driver (\<open>libfreenect.h\<close>, not part of the header) is an
  opaque capability whose calls return a status, zero for success. It is a parameter
  of every operation: \<open>ret\<close> gives the value a call returns after a given history, and
  the two accelerometer fields give what the driver writes through the out-pointers.
  Any run of the real driver is an instance, since the log grows with every call.
\<close>

record driver =
  ret :: "event list \<Rightarrow> call \<Rightarrow> int"
  mks_accel :: "event list \<Rightarrow> ptr \<Rightarrow> real \<times> real \<times> real"
  raw_accel :: "event list \<Rightarrow> ptr \<Rightarrow> int16_t \<times> int16_t \<times> int16_t"

text \<open>The driver's record of one open device: what the setters of \<open>libfreenect.h\<close> store.\<close>

record freenect_device =
  user :: "ptr option"
  rgb_format :: "freenect_rgb_format option"
  depth_format :: "freenect_depth_format option"
  depth_cb :: "callback_fn option"
  rgb_cb :: "callback_fn option"

text \<open>\<open>class FreenectDevice\<close>: its only data member is \<open>m_dev\<close>.\<close>

record FreenectDevice =
  m_dev :: ptr

text \<open>
  \<open>class Freenect<T>\<close>: \<open>m_ctx\<close>, \<open>m_stop\<close>, \<open>m_thread\<close>, \<open>m_devices\<close>. The
  \<open>std::map<int, T*>\<close> is an association list kept in ascending key order, the order in
  which the destructor walks it.
\<close>

type_synonym 'v std_map = "(int \<times> 'v) list"

record Freenect =
  m_ctx :: ptr
  m_stop :: bool
  m_thread :: pthread_t
  m_devices :: "ptr std_map"

record world =
  objs :: "ptr \<rightharpoonup> FreenectDevice"   \<comment> \<open>live device objects, by address\<close>
  devs :: "ptr \<rightharpoonup> freenect_device"  \<comment> \<open>the driver's open devices\<close>
  ctxs :: "ptr set"                   \<comment> \<open>initialised driver contexts\<close>
  threads :: "pthread_t set"          \<comment> \<open>threads created and not joined\<close>
  next_ptr :: ptr                     \<comment> \<open>the allocator: addresses below are used\<close>
  next_tid :: pthread_t
  events :: "event list"

definition world0 :: world where
  "world0 = \<lparr>objs = Map.empty, devs = Map.empty, ctxs = {}, threads = {},
             next_ptr = 1, next_tid = 1, events = []\<rparr>"

definition emit :: "event \<Rightarrow> world \<Rightarrow> world" where
  "emit e w = w\<lparr>events := events w @ [e]\<rparr>"

definition drv_call :: "driver \<Rightarrow> call \<Rightarrow> world \<Rightarrow> int \<times> world" where
  "drv_call drv c w = (ret drv (events w) c, emit (Call c) w)"

definition alloc :: "world \<Rightarrow> ptr \<times> world" where
  "alloc w = (next_ptr w, w\<lparr>next_ptr := Suc (next_ptr w)\<rparr>)"

subsection \<open>The driver's effect on its own tables\<close>

text \<open>
  The functions of \<open>libfreenect.h\<close> and \<open>pthread.h\<close> are not part of the header; each is
  modelled from the spec's list of what the driver offers. Every one logs its call and
  returns what the \<open>driver\<close> parameter says.
\<close>

text \<open>
  Modelled from the spec: \<open>freenect_init\<close>, "context init". On status zero a newly
  allocated context is handed out through the out-pointer.
\<close>

definition freenect_init :: "driver \<Rightarrow> world \<Rightarrow> (int \<times> ptr) \<times> world" where
  "freenect_init drv w =
     (let (st, w1) = drv_call drv Init w in
      if st = 0 then
        (let (c, w2) = alloc w1 in ((st, c), w2\<lparr>ctxs := insert c (ctxs w2)\<rparr>))
      else ((st, 0), w1))"

text \<open>
  Modelled from the spec: \<open>freenect_shutdown\<close>, "context shutdown". On status zero the
  context is released.
\<close>

definition freenect_shutdown :: "driver \<Rightarrow> ptr \<Rightarrow> world \<Rightarrow> int \<times> world" where
  "freenect_shutdown drv c w =
     (let (st, w1) = drv_call drv (Shutdown c) w in
      if st = 0 then (st, w1\<lparr>ctxs := ctxs w1 - {c}\<rparr>) else (st, w1))"

text \<open>
  Modelled from the spec: \<open>freenect_num_devices\<close>, "device count query"; the value
  returned is the count.
\<close>

definition freenect_num_devices :: "driver \<Rightarrow> ptr \<Rightarrow> world \<Rightarrow> int \<times> world" where
  "freenect_num_devices drv c w = drv_call drv (NumDevices c) w"

text \<open>
  Modelled from the spec: \<open>freenect_open_device\<close>, "device open by index". On status zero
  a newly allocated device, with no user pointer and no callbacks yet, is handed out through
  the out-pointer.
\<close>

definition new_device :: freenect_device where
  "new_device = \<lparr>user = None, rgb_format = None, depth_format = None,
                 depth_cb = None, rgb_cb = None\<rparr>"

text \<open>Modelled from the spec: \<open>freenect_open_device\<close>, as described above.\<close>

definition freenect_open_device :: "driver \<Rightarrow> ptr \<Rightarrow> int \<Rightarrow> world \<Rightarrow> (int \<times> ptr) \<times> world" where
  "freenect_open_device drv c index w =
     (let (st, w1) = drv_call drv (OpenDevice c index) w in
      if st = 0 then
        (let (d, w2) = alloc w1 in ((st, d), w2\<lparr>devs := (devs w2)(d \<mapsto> new_device)\<rparr>))
      else ((st, 0), w1))"

text \<open>
  Modelled from the spec: \<open>freenect_close_device\<close>, "device close". On status zero the
  device is gone.
\<close>

definition freenect_close_device :: "driver \<Rightarrow> ptr \<Rightarrow> world \<Rightarrow> int \<times> world" where
  "freenect_close_device drv d w =
     (let (st, w1) = drv_call drv (CloseDevice d) w in
      if st = 0 then (st, w1\<lparr>devs := (devs w1)(d := None)\<rparr>) else (st, w1))"

text \<open>
  Modelled from the spec: \<open>freenect_set_user\<close> and \<open>freenect_get_user\<close>, "set user-data
  pointer / get user-data pointer on a device handle". The setter stores the pointer in
  the device, the getter reads it back; on a pointer that is no open device the setter
  stores nothing and the getter yields NULL.
\<close>

definition upd_dev :: "ptr \<Rightarrow> (freenect_device \<Rightarrow> freenect_device) \<Rightarrow> world \<Rightarrow> world" where
  "upd_dev d g w = w\<lparr>devs := (devs w)(d := map_option g (devs w d))\<rparr>"

text \<open>Modelled from the spec: \<open>freenect_set_user\<close>, "set user-data pointer".\<close>

definition freenect_set_user :: "driver \<Rightarrow> ptr \<Rightarrow> ptr \<Rightarrow> world \<Rightarrow> world" where
  "freenect_set_user drv d p w =
     upd_dev d (\<lambda>fd. fd\<lparr>user := Some p\<rparr>) (snd (drv_call drv (SetUser d p) w))"

text \<open>Modelled from the spec: \<open>freenect_get_user\<close>, "get user-data pointer".\<close>

definition freenect_get_user :: "driver \<Rightarrow> ptr \<Rightarrow> world \<Rightarrow> ptr option \<times> world" where
  "freenect_get_user drv d w =
     (let w1 = snd (drv_call drv (GetUser d) w) in
      (case devs w1 d of None \<Rightarrow> None | Some fd \<Rightarrow> user fd, w1))"

text \<open>
  Modelled from the spec: \<open>freenect_set_rgb_format\<close> and \<open>freenect_set_depth_format\<close>, "set
  rgb pixel format; set depth bit format". On status zero the format is stored.
\<close>

definition freenect_set_rgb_format ::
  "driver \<Rightarrow> ptr \<Rightarrow> freenect_rgb_format \<Rightarrow> world \<Rightarrow> int \<times> world" where
  "freenect_set_rgb_format drv d fmt w =
     (let (st, w1) = drv_call drv (SetRgbFormat d fmt) w in
      if st = 0 then (st, upd_dev d (\<lambda>fd. fd\<lparr>rgb_format := Some fmt\<rparr>) w1) else (st, w1))"

text \<open>Modelled from the spec: \<open>freenect_set_depth_format\<close>, "set depth bit format".\<close>

definition freenect_set_depth_format ::
  "driver \<Rightarrow> ptr \<Rightarrow> freenect_depth_format \<Rightarrow> world \<Rightarrow> int \<times> world" where
  "freenect_set_depth_format drv d fmt w =
     (let (st, w1) = drv_call drv (SetDepthFormat d fmt) w in
      if st = 0 then (st, upd_dev d (\<lambda>fd. fd\<lparr>depth_format := Some fmt\<rparr>) w1) else (st, w1))"

text \<open>
  Modelled from the spec: \<open>freenect_set_depth_callback\<close> and \<open>freenect_set_rgb_callback\<close>,
  "register depth callback / register rgb callback". The function pointer is stored in the
  device.
\<close>

definition freenect_set_depth_callback :: "driver \<Rightarrow> ptr \<Rightarrow> callback_fn \<Rightarrow> world \<Rightarrow> world" where
  "freenect_set_depth_callback drv d cb w =
     upd_dev d (\<lambda>fd. fd\<lparr>depth_cb := Some cb\<rparr>) (snd (drv_call drv (SetDepthCallback d cb) w))"

text \<open>Modelled from the spec: \<open>freenect_set_rgb_callback\<close>, "register rgb callback".\<close>

definition freenect_set_rgb_callback :: "driver \<Rightarrow> ptr \<Rightarrow> callback_fn \<Rightarrow> world \<Rightarrow> world" where
  "freenect_set_rgb_callback drv d cb w =
     upd_dev d (\<lambda>fd. fd\<lparr>rgb_cb := Some cb\<rparr>) (snd (drv_call drv (SetRgbCallback d cb) w))"

text \<open>
  Modelled from the spec: \<open>pthread_create\<close> and \<open>pthread_join\<close>, "launches the background
  event-pump thread" and "join semantics". On status zero a new thread exists; after the
  join it is gone. What the thread does is the pump loop below.
\<close>

definition pthread_create :: "driver \<Rightarrow> world \<Rightarrow> (int \<times> pthread_t) \<times> world" where
  "pthread_create drv w =
     (let (st, w1) = drv_call drv PthreadCreate w in
      if st = 0 then
        ((st, next_tid w1),
         w1\<lparr>threads := insert (next_tid w1) (threads w1), next_tid := Suc (next_tid w1)\<rparr>)
      else ((st, 0), w1))"

text \<open>
  Modelled from the spec: \<open>pthread_join\<close>, the join of the pump thread; the header does
  not look at its status.
\<close>

definition pthread_join :: "driver \<Rightarrow> pthread_t \<Rightarrow> world \<Rightarrow> int \<times> world" where
  "pthread_join drv t w =
     (let (st, w1) = drv_call drv (PthreadJoin t) w in (st, w1\<lparr>threads := threads w1 - {t}\<rparr>))"

subsection \<open>class FreenectDevice\<close>

text \<open>
  The constructor (lines 46-53). \<open>this\<close> is the address of the object under
  construction. Only the status of \<open>freenect_open_device\<close> is tested; those of the two
  format setters are dropped, as in the source.
\<close>

definition FreenectDevice_ctor ::
  "driver \<Rightarrow> ptr \<Rightarrow> ptr \<Rightarrow> int \<Rightarrow> world \<Rightarrow> (error + FreenectDevice) \<times> world" where
  "FreenectDevice_ctor drv this ctx index w =
     (let ((st, d), w1) = freenect_open_device drv ctx index w in
      if st \<noteq> 0 then (Inl (runtime_error ''Cannot open Kinect''), w1)
      else
        (let w2 = freenect_set_user drv d this w1;
             w3 = snd (freenect_set_rgb_format drv d FREENECT_FORMAT_RGB w2);
             w4 = snd (freenect_set_depth_format drv d FREENECT_FORMAT_11_BIT w3);
             w5 = freenect_set_depth_callback drv d Fn_freenect_depth_callback w4;
             w6 = freenect_set_rgb_callback drv d Fn_freenect_rgb_callback w5
         in (Inr \<lparr>m_dev = d\<rparr>, w6)))"

text \<open>The destructor (lines 54-56).\<close>

definition FreenectDevice_dtor :: "driver \<Rightarrow> FreenectDevice \<Rightarrow> world \<Rightarrow> (error + unit) \<times> world" where
  "FreenectDevice_dtor drv this w =
     (let (st, w1) = freenect_close_device drv (m_dev this) w in
      if st \<noteq> 0 then (Inl (runtime_error ''Cannot shutdown Kinect''), w1) else (Inr (), w1))"

text \<open>
  Lines 57-74: six operations of one shape, a single driver call whose non-zero status
  is thrown with the operation's own message.
\<close>

definition guarded :: "driver \<Rightarrow> call \<Rightarrow> string \<Rightarrow> world \<Rightarrow> (error + unit) \<times> world" where
  "guarded drv c msg w =
     (let (st, w1) = drv_call drv c w in
      if st \<noteq> 0 then (Inl (runtime_error msg), w1) else (Inr (), w1))"

definition startRGB :: "driver \<Rightarrow> FreenectDevice \<Rightarrow> world \<Rightarrow> (error + unit) \<times> world" where
  "startRGB drv this w = guarded drv (RgbStart (m_dev this)) ''Cannot start RGB callback'' w"

definition stopRGB :: "driver \<Rightarrow> FreenectDevice \<Rightarrow> world \<Rightarrow> (error + unit) \<times> world" where
  "stopRGB drv this w = guarded drv (RgbStop (m_dev this)) ''Cannot stop RGB callback'' w"

definition startDepth :: "driver \<Rightarrow> FreenectDevice \<Rightarrow> world \<Rightarrow> (error + unit) \<times> world" where
  "startDepth drv this w = guarded drv (DepthStart (m_dev this)) ''Cannot start depth callback'' w"

definition stopDepth :: "driver \<Rightarrow> FreenectDevice \<Rightarrow> world \<Rightarrow> (error + unit) \<times> world" where
  "stopDepth drv this w = guarded drv (DepthStop (m_dev this)) ''Cannot stop depth callback'' w"

definition setTiltDegrees ::
  "driver \<Rightarrow> FreenectDevice \<Rightarrow> real \<Rightarrow> world \<Rightarrow> (error + unit) \<times> world" where
  "setTiltDegrees drv this angle w =
     guarded drv (SetTiltDegs (m_dev this) angle) ''Cannot set angle in degrees'' w"

definition setLed :: "driver \<Rightarrow> FreenectDevice \<Rightarrow> int \<Rightarrow> world \<Rightarrow> (error + unit) \<times> world" where
  "setLed drv this option w = guarded drv (SetLedOption (m_dev this) option) ''Cannot set led'' w"

text \<open>
  Lines 75-80: the two \<open>getAccelerometers\<close> overloads. The out-parameters hold what the
  driver wrote when the call returns normally.
\<close>

definition getAccelerometers_mks ::
  "driver \<Rightarrow> FreenectDevice \<Rightarrow> world \<Rightarrow> (error + real \<times> real \<times> real) \<times> world" where
  "getAccelerometers_mks drv this w =
     (let (st, w1) = drv_call drv (GetMksAccel (m_dev this)) w in
      if st \<noteq> 0 then (Inl (runtime_error ''Cannot get mks accemerometers''), w1)
      else (Inr (mks_accel drv (events w) (m_dev this)), w1))"

definition getAccelerometers_raw ::
  "driver \<Rightarrow> FreenectDevice \<Rightarrow> world \<Rightarrow> (error + int16_t \<times> int16_t \<times> int16_t) \<times> world" where
  "getAccelerometers_raw drv this w =
     (let (st, w1) = drv_call drv (GetRawAccel (m_dev this)) w in
      if st \<noteq> 0 then (Inl (runtime_error ''Cannot get raw accemerometers''), w1)
      else (Inr (raw_accel drv (events w) (m_dev this)), w1))"

text \<open>
  A virtual call through a \<open>FreenectDevice*\<close>: defined only when a live object is at
  that address. The override is the application's; the model logs the invocation.
\<close>

definition virtual_call :: "ptr option \<Rightarrow> (ptr \<Rightarrow> event) \<Rightarrow> world \<Rightarrow> (error + unit) \<times> world" where
  "virtual_call device ev w =
     (case device of
        None \<Rightarrow> (Inl undefined_behaviour, w)
      | Some p \<Rightarrow>
          (case objs w p of
             None \<Rightarrow> (Inl undefined_behaviour, w)
           | Some obj \<Rightarrow> (Inr (), emit (ev p) w)))"

text \<open>The two static trampolines (lines 87-94).\<close>

definition freenect_depth_callback ::
  "driver \<Rightarrow> ptr \<Rightarrow> ptr \<Rightarrow> uint32_t \<Rightarrow> world \<Rightarrow> (error + unit) \<times> world" where
  "freenect_depth_callback drv dev depth timestamp w =
     (let (device, w1) = freenect_get_user drv dev w in
      virtual_call device (\<lambda>p. DepthCallback p depth timestamp) w1)"

definition freenect_rgb_callback ::
  "driver \<Rightarrow> ptr \<Rightarrow> ptr \<Rightarrow> uint32_t \<Rightarrow> world \<Rightarrow> (error + unit) \<times> world" where
  "freenect_rgb_callback drv dev rgb timestamp w =
     (let (device, w1) = freenect_get_user drv dev w in
      virtual_call device (\<lambda>p. RGBCallback p rgb timestamp) w1)"

subsection \<open>\<open>std::map<int, T*>\<close>\<close>

text \<open>
  \<open>insert\<close> leaves the map alone when the key is already there; \<open>erase\<close> by key removes
  the entry and does nothing else (the mapped value is a raw pointer); \<open>at\<close> throws
  \<open>std::out_of_range\<close> for a missing key, which is \<open>None\<close> here.
\<close>

definition map_insert :: "int \<Rightarrow> 'v \<Rightarrow> 'v std_map \<Rightarrow> 'v std_map" where
  "map_insert k v m = (if k \<in> fst ` set m then m else insort_key fst (k, v) m)"

definition map_erase :: "int \<Rightarrow> 'v std_map \<Rightarrow> 'v std_map" where
  "map_erase k m = filter (\<lambda>kv. fst kv \<noteq> k) m"

definition map_at :: "'v std_map \<Rightarrow> int \<Rightarrow> 'v option" where
  "map_at m k = map_of m k"

definition keys :: "'v std_map \<Rightarrow> int set" where
  "keys m = fst ` set m"

subsection \<open>class Freenect\<close>

text \<open>The constructor (lines 99-102).\<close>

definition Freenect_ctor :: "driver \<Rightarrow> world \<Rightarrow> (error + Freenect) \<times> world" where
  "Freenect_ctor drv w =
     (let ((st, c), w1) = freenect_init drv w in
      if st \<noteq> 0 then (Inl (runtime_error ''Cannot initialize freenect library''), w1)
      else
        (let ((st2, t), w2) = pthread_create drv w1 in
         if st2 \<noteq> 0 then (Inl (runtime_error ''Cannot initialize freenect thread''), w2)
         else (Inr \<lparr>m_ctx = c, m_stop = False, m_thread = t, m_devices = []\<rparr>, w2)))"

text \<open>
  \<open>new T(m_ctx, _index)\<close>: storage is allocated, then the constructor of the
  \<open>FreenectDevice\<close> base runs in it; when that throws, no object comes to life.
  \<open>delete p\<close>: the destructor runs and the object's life ends.
\<close>

definition new_T :: "driver \<Rightarrow> ptr \<Rightarrow> int \<Rightarrow> world \<Rightarrow> (error + ptr) \<times> world" where
  "new_T drv ctx index w =
     (let (this, w1) = alloc w in
      case FreenectDevice_ctor drv this ctx index w1 of
        (Inl e, w2) \<Rightarrow> (Inl e, w2)
      | (Inr obj, w2) \<Rightarrow> (Inr this, w2\<lparr>objs := (objs w2)(this \<mapsto> obj)\<rparr>))"

definition delete_T :: "driver \<Rightarrow> ptr \<Rightarrow> world \<Rightarrow> (error + unit) \<times> world" where
  "delete_T drv p w =
     (case objs w p of
        None \<Rightarrow> (Inl undefined_behaviour, w)
      | Some obj \<Rightarrow>
          (let (r, w1) = FreenectDevice_dtor drv obj w in (r, w1\<lparr>objs := (objs w1)(p := None)\<rparr>)))"

text \<open>
  The destructor (lines 103-110). The loop walks the map from \<open>begin()\<close> on; an exception
  leaving \<open>~FreenectDevice\<close> leaves the loop and the destructor with it, as in the C++ of
  the header's time. (Where destructors are \<open>noexcept\<close> by default the program is
  terminated at that \<open>throw\<close> instead; the steps that are not taken are the same.)
\<close>

fun delete_each :: "driver \<Rightarrow> ptr std_map \<Rightarrow> world \<Rightarrow> (error + unit) \<times> world" where
  "delete_each drv [] w = (Inr (), w)"
| "delete_each drv (it # rest) w =
     (case delete_T drv (snd it) w of
        (Inl e, w1) \<Rightarrow> (Inl e, w1)
      | (Inr u, w1) \<Rightarrow> delete_each drv rest w1)"

definition Freenect_dtor ::
  "driver \<Rightarrow> Freenect \<Rightarrow> world \<Rightarrow> (error + unit) \<times> Freenect \<times> world" where
  "Freenect_dtor drv this w =
     (case delete_each drv (m_devices this) w of
        (Inl e, w1) \<Rightarrow> (Inl e, this, w1)
      | (Inr u, w1) \<Rightarrow>
          (let this1 = this\<lparr>m_stop := True\<rparr>;
               w2 = emit StopSignalled w1;
               w3 = snd (pthread_join drv (m_thread this1) w2);
               (st, w4) = freenect_shutdown drv (m_ctx this1) w3
           in if st \<noteq> 0 then (Inl (runtime_error ''Cannot cleanup freenect library''), this1, w4)
              else (Inr (), this1, w4)))"

text \<open>\<open>createDevice\<close> (lines 111-114): the argument of \<open>insert\<close> is evaluated first.\<close>

definition createDevice ::
  "driver \<Rightarrow> int \<Rightarrow> Freenect \<Rightarrow> world \<Rightarrow> (error + ptr) \<times> Freenect \<times> world" where
  "createDevice drv index this w =
     (case new_T drv (m_ctx this) index w of
        (Inl e, w1) \<Rightarrow> (Inl e, this, w1)
      | (Inr p, w1) \<Rightarrow>
          (let this1 = this\<lparr>m_devices := map_insert index p (m_devices this)\<rparr> in
           case map_at (m_devices this1) index of
             None \<Rightarrow> (Inl out_of_range, this1, w1)
           | Some q \<Rightarrow> (Inr q, this1, w1)))"

text \<open>\<open>deleteDevice\<close> (lines 115-117).\<close>

definition deleteDevice :: "int \<Rightarrow> Freenect \<Rightarrow> world \<Rightarrow> Freenect \<times> world" where
  "deleteDevice index this w = (this\<lparr>m_devices := map_erase index (m_devices this)\<rparr>, w)"

text \<open>\<open>deviceCount\<close> (lines 118-120).\<close>

definition deviceCount :: "driver \<Rightarrow> Freenect \<Rightarrow> world \<Rightarrow> int \<times> world" where
  "deviceCount drv this w = freenect_num_devices drv (m_ctx this) w"

subsection \<open>The pump loop\<close>

text \<open>
  \<open>operator()\<close> (lines 122-126) runs on the thread started by the constructor:
  \<open>pthread_callback\<close> (lines 127-130) casts its argument back to the \<open>Freenect\<close> object and
  calls it. Another thread may write \<open>m_stop\<close> meanwhile. The loop is therefore taken apart
  into its two steps, the test of \<open>m_stop\<close> and the body, so that the write can fall between
  any two of them; \<open>InBody\<close> is the loop after a test that read false, up to the return of
  \<open>freenect_process_events\<close>. \<open>Returned\<close>: the loop was left normally; \<open>Threw\<close>: the body
  threw.
\<close>

datatype pump_pc = TestStop | InBody | Returned | Threw

definition pump_body :: "driver \<Rightarrow> Freenect \<Rightarrow> world \<Rightarrow> (error + unit) \<times> world" where
  "pump_body drv this w =
     guarded drv (ProcessEvents (m_ctx this)) ''Cannot process freenect events'' w"

definition pump_step :: "driver \<Rightarrow> Freenect \<Rightarrow> pump_pc \<Rightarrow> world \<Rightarrow> pump_pc \<times> world" where
  "pump_step drv this pc w =
     (case pc of
        TestStop \<Rightarrow> (if \<not> m_stop this then InBody else Returned, w)
      | InBody \<Rightarrow>
          (case pump_body drv this w of
             (Inl e, w1) \<Rightarrow> (Threw, w1)
           | (Inr u, w1) \<Rightarrow> (TestStop, w1))
      | Returned \<Rightarrow> (Returned, w)
      | Threw \<Rightarrow> (Threw, w))"

text \<open>
  Two threads: the pump thread takes a step of its loop; the destroying thread
  executes line 107, \<open>m_stop = true\<close>. A schedule is the order in which they move, and a
  test of the \<open>volatile\<close> flag reads what the latest write before it in the schedule left.
\<close>

datatype actor = PumpThread | Destroyer

type_synonym pump_state = "Freenect \<times> pump_pc \<times> world"

fun step :: "driver \<Rightarrow> actor \<Rightarrow> pump_state \<Rightarrow> pump_state" where
  "step drv PumpThread (this, pc, w) =
     (let (pc1, w1) = pump_step drv this pc w in (this, pc1, w1))"
| "step drv Destroyer (this, pc, w) = (this\<lparr>m_stop := True\<rparr>, pc, emit StopSignalled w)"

fun interleave :: "driver \<Rightarrow> actor list \<Rightarrow> pump_state \<Rightarrow> pump_state" where
  "interleave drv [] s = s"
| "interleave drv (a # sched) s = interleave drv sched (step drv a s)"

fun is_pump_call :: "event \<Rightarrow> bool" where
  "is_pump_call (Call (ProcessEvents c)) = True"
| "is_pump_call e = False"

definition pump_calls :: "world \<Rightarrow> nat" where
  "pump_calls w = length (filter is_pump_call (events w))"

definition pump_moves :: "actor list \<Rightarrow> nat" where
  "pump_moves sched = length (filter (\<lambda>a. a = PumpThread) sched)"

subsection \<open>Frames\<close>

text \<open>
  Modelled from the spec: the driver delivers a frame of a device by calling the
  callback registered for that device with the device, the buffer and the timestamp.
\<close>

fun invoke :: "driver \<Rightarrow> callback_fn \<Rightarrow> ptr \<Rightarrow> ptr \<Rightarrow> uint32_t \<Rightarrow> world \<Rightarrow> (error + unit) \<times> world" where
  "invoke drv Fn_freenect_depth_callback = freenect_depth_callback drv"
| "invoke drv Fn_freenect_rgb_callback = freenect_rgb_callback drv"

text \<open>Modelled from the spec: delivery of a depth frame through the registered depth callback.\<close>

definition deliver_depth ::
  "driver \<Rightarrow> ptr \<Rightarrow> ptr \<Rightarrow> uint32_t \<Rightarrow> world \<Rightarrow> (error + unit) \<times> world" where
  "deliver_depth drv dev depth timestamp w =
     (case devs w dev of
        None \<Rightarrow> (Inr (), w)
      | Some fd \<Rightarrow>
          (case depth_cb fd of
             None \<Rightarrow> (Inr (), w)
           | Some cb \<Rightarrow> invoke drv cb dev depth timestamp w))"

text \<open>Modelled from the spec: delivery of an RGB frame through the registered RGB callback.\<close>

definition deliver_rgb ::
  "driver \<Rightarrow> ptr \<Rightarrow> ptr \<Rightarrow> uint32_t \<Rightarrow> world \<Rightarrow> (error + unit) \<times> world" where
  "deliver_rgb drv dev rgb timestamp w =
     (case devs w dev of
        None \<Rightarrow> (Inr (), w)
      | Some fd \<Rightarrow>
          (case rgb_cb fd of
             None \<Rightarrow> (Inr (), w)
           | Some cb \<Rightarrow> invoke drv cb dev rgb timestamp w))"

subsection \<open>Serial use of one \<open>Freenect\<close> object\<close>

text \<open>
  What an application and the driver can do, one operation at a time: the member
  functions of the \<open>Freenect\<close> object, those of a device object given by its address,
  a frame delivered for a driver device, one turn of the pump loop's body, and the
  destruction of the \<open>Freenect\<close> object, after which it is gone (\<open>None\<close>).
\<close>

datatype op =
    CreateDevice int
  | DeleteDevice int
  | DeviceCount
  | StartRGB ptr
  | StopRGB ptr
  | StartDepth ptr
  | StopDepth ptr
  | SetTiltDegrees ptr real
  | SetLed ptr int
  | GetAccelerometersMks ptr
  | GetAccelerometersRaw ptr
  | DepthFrame ptr ptr uint32_t
  | RgbFrame ptr ptr uint32_t
  | PumpBody
  | Destroy

datatype retval =
    Void
  | Ref ptr
  | Count int
  | Mks "real \<times> real \<times> real"
  | Raw "int16_t \<times> int16_t \<times> int16_t"

type_synonym sys = "Freenect option \<times> world"

definition on_handle ::
  "ptr \<Rightarrow> (FreenectDevice \<Rightarrow> world \<Rightarrow> (error + 'a) \<times> world) \<Rightarrow> ('a \<Rightarrow> retval) \<Rightarrow> sys
     \<Rightarrow> (error + retval) \<times> sys" where
  "on_handle h m val s =
     (case objs (snd s) h of
        None \<Rightarrow> (Inl undefined_behaviour, s)
      | Some obj \<Rightarrow> (case m obj (snd s) of (r, w1) \<Rightarrow> (map_sum id val r, fst s, w1)))"

definition on_manager ::
  "(Freenect \<Rightarrow> world \<Rightarrow> (error + retval) \<times> Freenect option \<times> world) \<Rightarrow> sys
     \<Rightarrow> (error + retval) \<times> sys" where
  "on_manager m s =
     (case fst s of
        None \<Rightarrow> (Inl undefined_behaviour, s)
      | Some this \<Rightarrow> m this (snd s))"

fun exec :: "driver \<Rightarrow> op \<Rightarrow> sys \<Rightarrow> (error + retval) \<times> sys" where
  "exec drv (CreateDevice index) s =
     on_manager (\<lambda>this w. case createDevice drv index this w of
                    (r, this1, w1) \<Rightarrow> (map_sum id Ref r, Some this1, w1)) s"
| "exec drv (DeleteDevice index) s =
     on_manager (\<lambda>this w. case deleteDevice index this w of
                    (this1, w1) \<Rightarrow> (Inr Void, Some this1, w1)) s"
| "exec drv DeviceCount s =
     on_manager (\<lambda>this w. case deviceCount drv this w of
                    (n, w1) \<Rightarrow> (Inr (Count n), Some this, w1)) s"
| "exec drv (StartRGB h) s = on_handle h (startRGB drv) (\<lambda>u. Void) s"
| "exec drv (StopRGB h) s = on_handle h (stopRGB drv) (\<lambda>u. Void) s"
| "exec drv (StartDepth h) s = on_handle h (startDepth drv) (\<lambda>u. Void) s"
| "exec drv (StopDepth h) s = on_handle h (stopDepth drv) (\<lambda>u. Void) s"
| "exec drv (SetTiltDegrees h angle) s =
     on_handle h (\<lambda>this. setTiltDegrees drv this angle) (\<lambda>u. Void) s"
| "exec drv (SetLed h option) s = on_handle h (\<lambda>this. setLed drv this option) (\<lambda>u. Void) s"
| "exec drv (GetAccelerometersMks h) s = on_handle h (getAccelerometers_mks drv) Mks s"
| "exec drv (GetAccelerometersRaw h) s = on_handle h (getAccelerometers_raw drv) Raw s"
| "exec drv (DepthFrame dev depth timestamp) s =
     (case deliver_depth drv dev depth timestamp (snd s) of
        (r, w1) \<Rightarrow> (map_sum id (\<lambda>u. Void) r, fst s, w1))"
| "exec drv (RgbFrame dev rgb timestamp) s =
     (case deliver_rgb drv dev rgb timestamp (snd s) of
        (r, w1) \<Rightarrow> (map_sum id (\<lambda>u. Void) r, fst s, w1))"
| "exec drv PumpBody s =
     on_manager (\<lambda>this w. case pump_body drv this w of
                    (r, w1) \<Rightarrow> (map_sum id (\<lambda>u. Void) r, Some this, w1)) s"
| "exec drv Destroy s =
     on_manager (\<lambda>this w. case Freenect_dtor drv this w of
                    (r, this1, w1) \<Rightarrow> (map_sum id (\<lambda>u. Void) r, None, w1)) s"

fun run :: "driver \<Rightarrow> op list \<Rightarrow> sys \<Rightarrow> (error + retval) list \<times> sys" where
  "run drv [] s = ([], s)"
| "run drv (x # xs) s =
     (case exec drv x s of
        (r, s1) \<Rightarrow> (case run drv xs s1 of (rs, s2) \<Rightarrow> (r # rs, s2)))"

text \<open>
  A session: the \<open>Freenect\<close> object is constructed in the empty world and the
  operations follow; when the constructor throws there is no object.
\<close>

definition session :: "driver \<Rightarrow> op list \<Rightarrow> (error + retval) list \<times> sys" where
  "session drv ops =
     (case Freenect_ctor drv world0 of
        (Inl e, w) \<Rightarrow> ([Inl e], None, w)
      | (Inr this, w) \<Rightarrow> run drv ops (Some this, w))"

text \<open>A driver that accepts every request, for concrete runs.\<close>

definition willing :: driver where
  "willing = \<lparr>ret = (\<lambda>h c. 0), mks_accel = (\<lambda>h d. (0, 0, 0)), raw_accel = (\<lambda>h d. (0, 0, 0))\<rparr>"

section \<open>Notions used in the statements\<close>

subsection \<open>Well-formed states\<close>

text \<open>
  What holds of the heap and the driver's tables in every state a session reaches: the
  driver device of a live device object is open, carries the object's address as user
  pointer and has the two trampolines registered; and addresses in use lie below the
  allocator's mark.
\<close>

definition wf_world :: "world \<Rightarrow> bool" where
  "wf_world w \<longleftrightarrow>
     (\<forall>h obj. objs w h = Some obj \<longrightarrow>
        (\<exists>fd. devs w (m_dev obj) = Some fd \<and> user fd = Some h \<and>
              depth_cb fd = Some Fn_freenect_depth_callback \<and>
              rgb_cb fd = Some Fn_freenect_rgb_callback)) \<and>
     (\<forall>p. p \<in> dom (objs w) \<longrightarrow> p < next_ptr w) \<and>
     (\<forall>d. d \<in> dom (devs w) \<longrightarrow> d < next_ptr w)"

text \<open>The registry holds addresses of live objects, each at most once.\<close>

definition wf_registry :: "Freenect \<Rightarrow> world \<Rightarrow> bool" where
  "wf_registry this w \<longleftrightarrow>
     (\<forall>p \<in> snd ` set (m_devices this). p \<in> dom (objs w)) \<and> distinct (map snd (m_devices this))"

definition wf_sys :: "sys \<Rightarrow> bool" where
  "wf_sys s \<longleftrightarrow>
     wf_world (snd s) \<and> (case fst s of None \<Rightarrow> True | Some this \<Rightarrow> wf_registry this (snd s))"

subsection \<open>The history of the user pointer\<close>

text \<open>
  A stretch of the log is quiet when it holds no \<open>freenect_set_user\<close> call. A world extends
  another quietly when its log is the other's followed by a quiet stretch, the allocator's
  mark did not move back, and no device object came to life.
\<close>

definition quiet :: "event list \<Rightarrow> bool" where
  "quiet evs \<longleftrightarrow> (\<forall>d p. Call (SetUser d p) \<notin> set evs)"

definition quiet_ext :: "world \<Rightarrow> world \<Rightarrow> bool" where
  "quiet_ext w w' \<longleftrightarrow>
     (\<exists>evs. events w' = events w @ evs \<and> quiet evs) \<and> next_ptr w \<le> next_ptr w' \<and>
     (\<forall>h obj. objs w' h = Some obj \<longrightarrow> objs w h = Some obj)"

text \<open>
  Every \<open>freenect_set_user\<close> call in the log was made on an allocated device, no device
  was ever given two different user pointers, and the call that gave a live object's
  device the object's address is in the log.
\<close>

definition written_once :: "world \<Rightarrow> bool" where
  "written_once w \<longleftrightarrow>
     (\<forall>d p. Call (SetUser d p) \<in> set (events w) \<longrightarrow> d < next_ptr w) \<and>
     (\<forall>d p q. Call (SetUser d p) \<in> set (events w) \<and> Call (SetUser d q) \<in> set (events w)
        \<longrightarrow> p = q) \<and>
     (\<forall>h obj. objs w h = Some obj \<longrightarrow> Call (SetUser (m_dev obj) h) \<in> set (events w))"

subsection \<open>Teardown\<close>

text \<open>
  The steps of \<open>~Freenect\<close> in source order, as log entries: one \<open>freenect_close_device\<close>
  per registered object, in the order of the map; the write of \<open>m_stop\<close>; the join; the
  shutdown of the context.
\<close>

definition close_calls :: "world \<Rightarrow> ptr std_map \<Rightarrow> event list" where
  "close_calls w m =
     concat (map (\<lambda>it. case objs w (snd it) of
                          None \<Rightarrow> []
                        | Some obj \<Rightarrow> [Call (CloseDevice (m_dev obj))]) m)"

definition teardown_steps :: "Freenect \<Rightarrow> world \<Rightarrow> event list" where
  "teardown_steps this w =
     close_calls w (m_devices this) @
     [StopSignalled, Call (PthreadJoin (m_thread this)), Call (Shutdown (m_ctx this))]"

subsection \<open>Sequences of registry calls\<close>

fun is_registry_op :: "op \<Rightarrow> bool" where
  "is_registry_op (CreateDevice index) = True"
| "is_registry_op (DeleteDevice index) = True"
| "is_registry_op x = False"

text \<open>A call succeeded when it returned rather than threw.\<close>

fun ok :: "error + 'a \<Rightarrow> bool" where
  "ok (Inl e) = False"
| "ok (Inr v) = True"

text \<open>
  The indices created and not deleted afterwards: a \<open>createDevice(index)\<close> counts when
  no \<open>deleteDevice(index)\<close> follows it.
\<close>

fun created_not_deleted :: "op list \<Rightarrow> int set" where
  "created_not_deleted [] = {}"
| "created_not_deleted (CreateDevice index # rest) =
     (if DeleteDevice index \<in> set rest then created_not_deleted rest
      else insert index (created_not_deleted rest))"
| "created_not_deleted (x # rest) = created_not_deleted rest"

subsection \<open>Surfacing a driver status\<close>

text \<open>
  An operation surfaces the status of the driver call \<open>c\<close> with the message \<open>msg\<close> when it
  throws \<open>runtime_error msg\<close> exactly if the call returns non-zero, returns normally
  exactly if the call returns zero, and leaves the world with that one call logged and
  nothing else changed.
\<close>

definition surfaces :: "(error + 'a) \<times> world \<Rightarrow> driver \<Rightarrow> world \<Rightarrow> call \<Rightarrow> string \<Rightarrow> bool" where
  "surfaces r drv w c msg \<longleftrightarrow>
     (fst r = Inl (runtime_error msg)) = (ret drv (events w) c \<noteq> 0) \<and>
     (\<exists>v. fst r = Inr v) = (ret drv (events w) c = 0) \<and>
     snd r = emit (Call c) w"

subsection \<open>Concrete drivers and states\<close>

text \<open>A driver that refuses one call, with status 1, and accepts every other.\<close>

definition failing :: "call \<Rightarrow> driver" where
  "failing c0 = \<lparr>ret = (\<lambda>h c. if c = c0 then 1 else 0), mks_accel = (\<lambda>h d. (0, 0, 0)),
                 raw_accel = (\<lambda>h d. (0, 0, 0))\<rparr>"

text \<open>
  The \<open>Freenect\<close> object as the constructor leaves it in the empty world; the object and
  the world after \<open>createDevice(0)\<close>; and after \<open>createDevice(0)\<close>, \<open>createDevice(1)\<close> with a
  driver that will refuse to close the first device.
\<close>

definition manager0 :: Freenect where
  "manager0 = \<lparr>m_ctx = 1, m_stop = False, m_thread = 1, m_devices = []\<rparr>"

definition manager1 :: Freenect where
  "manager1 = \<lparr>m_ctx = 1, m_stop = False, m_thread = 1, m_devices = [(0, 2)]\<rparr>"

definition world1 :: world where
  "world1 = snd (snd (session willing [CreateDevice 0]))"

definition manager2 :: Freenect where
  "manager2 = \<lparr>m_ctx = 1, m_stop = False, m_thread = 1, m_devices = [(0, 2), (1, 4)]\<rparr>"

definition world2 :: world where
  "world2 = snd (snd (session (failing (CloseDevice 3)) [CreateDevice 0, CreateDevice 1]))"

section \<open>Properties\<close>

subsection \<open>What each step does to the heap and to the driver's tables\<close>

lemma emit_fields [simp]:
  "objs (emit e w) = objs w" "devs (emit e w) = devs w" "ctxs (emit e w) = ctxs w"
  "threads (emit e w) = threads w" "next_ptr (emit e w) = next_ptr w"
  "next_tid (emit e w) = next_tid w" "events (emit e w) = events w @ [e]"
  by (simp_all add: emit_def)

lemma drv_call_world [simp]: "snd (drv_call drv c w) = emit (Call c) w"
  by (simp add: drv_call_def)

lemma drv_call_ret [simp]: "fst (drv_call drv c w) = ret drv (events w) c"
  by (simp add: drv_call_def)

lemma guarded_eq:
  "guarded drv c msg w =
     (if ret drv (events w) c \<noteq> 0 then Inl (runtime_error msg) else Inr (), emit (Call c) w)"
  by (simp add: guarded_def drv_call_def)

subsection \<open>Well-formed states are kept\<close>

lemma wf_world_handle:
  assumes "wf_world w" and "objs w h = Some obj"
  obtains fd where "devs w (m_dev obj) = Some fd" and "user fd = Some h"
    and "depth_cb fd = Some Fn_freenect_depth_callback"
    and "rgb_cb fd = Some Fn_freenect_rgb_callback"
  using assms unfolding wf_world_def by blast

lemma wf_world_obj_bound: "wf_world w \<Longrightarrow> objs w p = Some obj \<Longrightarrow> p < next_ptr w"
  unfolding wf_world_def by blast

lemma wf_world_dev_bound: "wf_world w \<Longrightarrow> devs w d = Some fd \<Longrightarrow> d < next_ptr w"
  unfolding wf_world_def by blast

lemma wf_world_cong:
  "objs w' = objs w \<Longrightarrow> devs w' = devs w \<Longrightarrow> next_ptr w' = next_ptr w \<Longrightarrow>
   wf_world w' = wf_world w"
  by (simp add: wf_world_def)

lemma wf_world_emit [simp]: "wf_world (emit e w) = wf_world w"
  by (rule wf_world_cong) simp_all

lemma FreenectDevice_ctor_fail:
  assumes "FreenectDevice_ctor drv this ctx index w = (Inl e, w')"
  shows "e = DeviceOpenError \<and> ret drv (events w) (OpenDevice ctx index) \<noteq> 0 \<and>
         w' = emit (Call (OpenDevice ctx index)) w"
  using assms
  by (simp add: FreenectDevice_ctor_def freenect_open_device_def drv_call_def alloc_def
      Let_def split: if_splits)

lemma FreenectDevice_ctor_ok:
  assumes "FreenectDevice_ctor drv this ctx index w = (Inr obj, w')"
  shows "ret drv (events w) (OpenDevice ctx index) = 0 \<and> m_dev obj = next_ptr w \<and>
         objs w' = objs w \<and> next_ptr w' = Suc (next_ptr w) \<and>
         (\<exists>fd. devs w' = (devs w)(next_ptr w \<mapsto> fd) \<and> user fd = Some this \<and>
               depth_cb fd = Some Fn_freenect_depth_callback \<and>
               rgb_cb fd = Some Fn_freenect_rgb_callback)"
  using assms
  by (auto simp add: FreenectDevice_ctor_def freenect_open_device_def drv_call_def alloc_def
      freenect_set_user_def freenect_set_rgb_format_def freenect_set_depth_format_def
      freenect_set_depth_callback_def freenect_set_rgb_callback_def upd_dev_def new_device_def
      Let_def split: if_splits)

lemma alloc_eq [simp]:
  "fst (alloc w) = next_ptr w" "objs (snd (alloc w)) = objs w" "devs (snd (alloc w)) = devs w"
  "next_ptr (snd (alloc w)) = Suc (next_ptr w)" "events (snd (alloc w)) = events w"
  by (simp_all add: alloc_def)

lemma new_T_fail:
  assumes "new_T drv ctx index w = (Inl e, w')"
  shows "e = DeviceOpenError \<and> ret drv (events w) (OpenDevice ctx index) \<noteq> 0 \<and>
         w' = emit (Call (OpenDevice ctx index)) (snd (alloc w))"
proof -
  obtain r w2 where c: "FreenectDevice_ctor drv (next_ptr w) ctx index (snd (alloc w)) = (r, w2)"
    by (cases "FreenectDevice_ctor drv (next_ptr w) ctx index (snd (alloc w))")
  with assms have "r = Inl e" "w2 = w'"
    by (auto simp add: new_T_def alloc_def split: sum.splits)
  with c FreenectDevice_ctor_fail [of drv "next_ptr w" ctx index "snd (alloc w)" e w']
  show ?thesis by simp
qed

lemma new_T_ok:
  assumes "new_T drv ctx index w = (Inr p, w')"
  shows "ret drv (events w) (OpenDevice ctx index) = 0 \<and> p = next_ptr w \<and>
         objs w' = (objs w)(p \<mapsto> \<lparr>m_dev = Suc p\<rparr>) \<and> next_ptr w' = Suc (Suc p) \<and>
         (\<exists>fd. devs w' = (devs w)(Suc p \<mapsto> fd) \<and> user fd = Some p \<and>
               depth_cb fd = Some Fn_freenect_depth_callback \<and>
               rgb_cb fd = Some Fn_freenect_rgb_callback)"
proof -
  obtain r w2 where c: "FreenectDevice_ctor drv (next_ptr w) ctx index (snd (alloc w)) = (r, w2)"
    by (cases "FreenectDevice_ctor drv (next_ptr w) ctx index (snd (alloc w))")
  with assms obtain obj where r: "r = Inr obj" and p: "p = next_ptr w"
    and w': "w' = w2\<lparr>objs := (objs w2)(next_ptr w \<mapsto> obj)\<rparr>"
    by (auto simp add: new_T_def alloc_def split: sum.splits)
  from c r FreenectDevice_ctor_ok [of drv "next_ptr w" ctx index "snd (alloc w)" obj w2]
  have "ret drv (events w) (OpenDevice ctx index) = 0" "m_dev obj = Suc (next_ptr w)"
    "objs w2 = objs w" "next_ptr w2 = Suc (Suc (next_ptr w))"
    "\<exists>fd. devs w2 = (devs w)(Suc (next_ptr w) \<mapsto> fd) \<and> user fd = Some (next_ptr w) \<and>
          depth_cb fd = Some Fn_freenect_depth_callback \<and>
          rgb_cb fd = Some Fn_freenect_rgb_callback"
    by simp_all
  moreover from \<open>m_dev obj = Suc (next_ptr w)\<close> have "obj = \<lparr>m_dev = Suc (next_ptr w)\<rparr>"
    by (cases obj) simp
  ultimately show ?thesis using p w' by simp
qed

lemma wf_world_new_T:
  assumes "wf_world w"
  shows "wf_world (snd (new_T drv ctx index w))"
proof (cases "new_T drv ctx index w")
  case (Pair r w')
  show ?thesis
  proof (cases r)
    case (Inl e)
    with Pair new_T_fail [of drv ctx index w e w'] have "w' = emit (Call (OpenDevice ctx index)) (snd (alloc w))"
      by simp
    with assms Pair show ?thesis
      by (auto simp add: wf_world_def less_Suc_eq)
  next
    case (Inr p)
    with Pair new_T_ok [of drv ctx index w p w'] obtain fd where
      p: "p = next_ptr w" and o: "objs w' = (objs w)(p \<mapsto> \<lparr>m_dev = Suc p\<rparr>)"
      and n: "next_ptr w' = Suc (Suc p)" and d: "devs w' = (devs w)(Suc p \<mapsto> fd)"
      and fd: "user fd = Some p" "depth_cb fd = Some Fn_freenect_depth_callback"
              "rgb_cb fd = Some Fn_freenect_rgb_callback"
      by auto
    have fresh: "\<And>h obj. objs w h = Some obj \<Longrightarrow> m_dev obj \<noteq> Suc p"
    proof -
      fix h obj assume "objs w h = Some obj"
      with assms obtain fd where "devs w (m_dev obj) = Some fd" by (rule wf_world_handle)
      with assms have "m_dev obj < next_ptr w" by (rule wf_world_dev_bound)
      with p show "m_dev obj \<noteq> Suc p" by simp
    qed
    have "wf_world w'"
      unfolding wf_world_def
    proof (intro conjI allI impI)
      fix h obj assume h: "objs w' h = Some obj"
      show "\<exists>fd. devs w' (m_dev obj) = Some fd \<and> user fd = Some h \<and>
              depth_cb fd = Some Fn_freenect_depth_callback \<and>
              rgb_cb fd = Some Fn_freenect_rgb_callback"
      proof (cases "h = p")
        case True
        with h o have "m_dev obj = Suc p" by auto
        with True d fd show ?thesis by simp
      next
        case False
        with h o have old: "objs w h = Some obj" by simp
        with fresh have "m_dev obj \<noteq> Suc p" by simp
        with old assms d show ?thesis by (simp add: wf_world_def)
      qed
    next
      fix q assume "q \<in> dom (objs w')"
      with o have "q = p \<or> q \<in> dom (objs w)" by auto
      with assms p n show "q < next_ptr w'" by (auto simp add: wf_world_def less_Suc_eq)
    next
      fix q assume "q \<in> dom (devs w')"
      with d have "q = Suc p \<or> q \<in> dom (devs w)" by auto
      with assms p n show "q < next_ptr w'" by (auto simp add: wf_world_def less_Suc_eq)
    qed
    with Pair show ?thesis by simp
  qed
qed

lemma FreenectDevice_dtor_eq:
  "FreenectDevice_dtor drv this w =
     (if ret drv (events w) (CloseDevice (m_dev this)) \<noteq> 0
      then (Inl DeviceCloseError, emit (Call (CloseDevice (m_dev this))) w)
      else (Inr (), (emit (Call (CloseDevice (m_dev this))) w)
                      \<lparr>devs := (devs w)(m_dev this := None)\<rparr>))"
  by (simp add: FreenectDevice_dtor_def freenect_close_device_def drv_call_def)

lemma delete_T_live:
  assumes "objs w p = Some obj" and "delete_T drv p w = (r, w')"
  shows "objs w' = (objs w)(p := None) \<and> next_ptr w' = next_ptr w \<and>
         events w' = events w @ [Call (CloseDevice (m_dev obj))] \<and>
         threads w' = threads w \<and> ctxs w' = ctxs w \<and>
         (if ret drv (events w) (CloseDevice (m_dev obj)) \<noteq> 0
          then r = Inl DeviceCloseError \<and> devs w' = devs w
          else r = Inr () \<and> devs w' = (devs w)(m_dev obj := None))"
  using assms by (auto simp add: delete_T_def FreenectDevice_dtor_eq split: if_splits)

lemma delete_T_dead:
  assumes "objs w p = None"
  shows "delete_T drv p w = (Inl undefined_behaviour, w)"
  using assms by (simp add: delete_T_def)

lemma wf_world_delete_T:
  assumes "wf_world w"
  shows "wf_world (snd (delete_T drv p w))"
proof (cases "objs w p")
  case None
  with assms show ?thesis by (simp add: delete_T_dead)
next
  case (Some obj)
  obtain r w' where rw: "delete_T drv p w = (r, w')" by (cases "delete_T drv p w")
  from delete_T_live [OF Some rw]
  have o: "objs w' = (objs w)(p := None)" and n: "next_ptr w' = next_ptr w"
    and d: "devs w' = devs w \<or> devs w' = (devs w)(m_dev obj := None)"
    by (auto split: if_splits)
  have other: "\<And>h obj'. h \<noteq> p \<Longrightarrow> objs w h = Some obj' \<Longrightarrow> m_dev obj' \<noteq> m_dev obj"
  proof
    fix h obj' assume hp: "h \<noteq> p" and h: "objs w h = Some obj'" and eq: "m_dev obj' = m_dev obj"
    from assms h obtain fd where "devs w (m_dev obj') = Some fd" "user fd = Some h"
      by (rule wf_world_handle)
    moreover from assms Some obtain fd' where "devs w (m_dev obj) = Some fd'" "user fd' = Some p"
      by (rule wf_world_handle)
    ultimately show False using eq hp by simp
  qed
  have "wf_world w'"
    unfolding wf_world_def
  proof (intro conjI allI impI)
    fix h obj' assume h: "objs w' h = Some obj'"
    with o have hp: "h \<noteq> p" and old: "objs w h = Some obj'" by (auto split: if_splits)
    from other [OF hp old] have "devs w' (m_dev obj') = devs w (m_dev obj')"
      using d by auto
    with assms old show "\<exists>fd. devs w' (m_dev obj') = Some fd \<and> user fd = Some h \<and>
              depth_cb fd = Some Fn_freenect_depth_callback \<and>
              rgb_cb fd = Some Fn_freenect_rgb_callback"
      by (simp add: wf_world_def)
  next
    fix q assume "q \<in> dom (objs w')"
    with o have "q \<in> dom (objs w)" by (auto split: if_splits)
    with assms n show "q < next_ptr w'" by (simp add: wf_world_def)
  next
    fix q assume "q \<in> dom (devs w')"
    with d have "q \<in> dom (devs w)" by (auto split: if_splits)
    with assms n show "q < next_ptr w'" by (simp add: wf_world_def)
  qed
  with rw show ?thesis by simp
qed

lemma wf_world_delete_each:
  "wf_world w \<Longrightarrow> wf_world (snd (delete_each drv m w))"
proof (induction m arbitrary: w)
  case Nil
  then show ?case by simp
next
  case (Cons it rest)
  obtain r w1 where rw: "delete_T drv (snd it) w = (r, w1)" by (cases "delete_T drv (snd it) w")
  with Cons.prems wf_world_delete_T [of w drv "snd it"] have wf1: "wf_world w1" by simp
  show ?case
  proof (cases r)
    case (Inl e)
    with rw wf1 show ?thesis by simp
  next
    case (Inr u)
    with rw Cons.IH [OF wf1] show ?thesis by simp
  qed
qed

lemma distinct_snd_insort_key:
  "distinct (map snd (insort_key fst x m)) = (snd x \<notin> snd ` set m \<and> distinct (map snd m))"
  by (induction m) (auto simp add: set_insort_key)

lemma guarded_world [simp]: "snd (guarded drv c msg w) = emit (Call c) w"
  by (simp add: guarded_eq)

lemma device_op_world [simp]:
  "snd (startRGB drv this w) = emit (Call (RgbStart (m_dev this))) w"
  "snd (stopRGB drv this w) = emit (Call (RgbStop (m_dev this))) w"
  "snd (startDepth drv this w) = emit (Call (DepthStart (m_dev this))) w"
  "snd (stopDepth drv this w) = emit (Call (DepthStop (m_dev this))) w"
  "snd (setTiltDegrees drv this angle w) = emit (Call (SetTiltDegs (m_dev this) angle)) w"
  "snd (setLed drv this option w) = emit (Call (SetLedOption (m_dev this) option)) w"
  "snd (getAccelerometers_mks drv this w) = emit (Call (GetMksAccel (m_dev this))) w"
  "snd (getAccelerometers_raw drv this w) = emit (Call (GetRawAccel (m_dev this))) w"
  "snd (pump_body drv f w) = emit (Call (ProcessEvents (m_ctx f))) w"
  by (simp_all add: startRGB_def stopRGB_def startDepth_def stopDepth_def setTiltDegrees_def
      setLed_def getAccelerometers_mks_def getAccelerometers_raw_def pump_body_def drv_call_def)

lemma freenect_get_user_eq:
  "freenect_get_user drv d w =
     (case devs w d of None \<Rightarrow> None | Some fd \<Rightarrow> user fd, emit (Call (GetUser d)) w)"
  by (simp add: freenect_get_user_def)

lemma trampoline_fields:
  "objs (snd (freenect_depth_callback drv d buf ts w)) = objs w"
  "devs (snd (freenect_depth_callback drv d buf ts w)) = devs w"
  "next_ptr (snd (freenect_depth_callback drv d buf ts w)) = next_ptr w"
  "objs (snd (freenect_rgb_callback drv d buf ts w)) = objs w"
  "devs (snd (freenect_rgb_callback drv d buf ts w)) = devs w"
  "next_ptr (snd (freenect_rgb_callback drv d buf ts w)) = next_ptr w"
  by (auto simp add: freenect_depth_callback_def freenect_rgb_callback_def freenect_get_user_eq
      virtual_call_def split: option.splits)

lemma invoke_fields:
  "objs (snd (invoke drv cb d buf ts w)) = objs w"
  "devs (snd (invoke drv cb d buf ts w)) = devs w"
  "next_ptr (snd (invoke drv cb d buf ts w)) = next_ptr w"
  by (cases cb; simp add: trampoline_fields)+

lemma deliver_fields:
  "objs (snd (deliver_depth drv d buf ts w)) = objs w"
  "devs (snd (deliver_depth drv d buf ts w)) = devs w"
  "next_ptr (snd (deliver_depth drv d buf ts w)) = next_ptr w"
  "objs (snd (deliver_rgb drv d buf ts w)) = objs w"
  "devs (snd (deliver_rgb drv d buf ts w)) = devs w"
  "next_ptr (snd (deliver_rgb drv d buf ts w)) = next_ptr w"
  by (simp_all add: deliver_depth_def deliver_rgb_def invoke_fields split: option.splits)

lemma teardown_tail_fields:
  "objs (snd (freenect_shutdown drv c (snd (pthread_join drv t (emit e w))))) = objs w"
  "devs (snd (freenect_shutdown drv c (snd (pthread_join drv t (emit e w))))) = devs w"
  "next_ptr (snd (freenect_shutdown drv c (snd (pthread_join drv t (emit e w))))) = next_ptr w"
  by (simp_all add: freenect_shutdown_def pthread_join_def drv_call_def emit_def)

lemma wf_world_Freenect_dtor:
  assumes "wf_world w"
  shows "wf_world (snd (snd (Freenect_dtor drv this w)))"
proof (cases "delete_each drv (m_devices this) w")
  case (Pair r w1)
  from assms wf_world_delete_each [of w drv "m_devices this"] Pair have wf1: "wf_world w1"
    by simp
  show ?thesis
  proof (cases r)
    case (Inl e)
    with Pair wf1 show ?thesis by (simp add: Freenect_dtor_def)
  next
    case (Inr u)
    let ?w4 = "snd (freenect_shutdown drv (m_ctx this) (snd (pthread_join drv (m_thread this)
                 (emit StopSignalled w1))))"
    have "wf_world ?w4 = wf_world w1"
      by (rule wf_world_cong) (simp_all add: teardown_tail_fields)
    moreover have "snd (snd (Freenect_dtor drv this w)) = ?w4"
      using Pair Inr by (simp add: Freenect_dtor_def Let_def split_def)
    ultimately show ?thesis using wf1 by simp
  qed
qed

lemma wf_sys_createDevice:
  assumes "wf_world w" and "wf_registry this w"
    and "createDevice drv index this w = (r, this', w')"
  shows "wf_world w' \<and> wf_registry this' w'"
proof (cases "new_T drv (m_ctx this) index w")
  case (Pair rn w1)
  from assms(1) wf_world_new_T [of w drv "m_ctx this" index] Pair have wf1: "wf_world w1"
    by simp
  show ?thesis
  proof (cases rn)
    case (Inl e)
    with Pair assms(3) have eq: "this' = this" "w' = w1"
      by (simp_all add: createDevice_def)
    from Pair Inl new_T_fail [of drv "m_ctx this" index w e w1]
    have "objs w1 = objs w" by simp
    with assms(2) eq wf1 show ?thesis by (simp add: wf_registry_def)
  next
    case (Inr p)
    with Pair assms(3) have eq: "m_devices this' = map_insert index p (m_devices this)" "w' = w1"
      by (auto simp add: createDevice_def Let_def split: option.splits)
    from Pair Inr new_T_ok [of drv "m_ctx this" index w p w1]
    have p: "p = next_ptr w" and o: "objs w1 = (objs w)(p \<mapsto> \<lparr>m_dev = Suc p\<rparr>)" by simp_all
    have fresh: "p \<notin> snd ` set (m_devices this)"
    proof
      assume "p \<in> snd ` set (m_devices this)"
      with assms(2) obtain obj where "objs w p = Some obj" by (auto simp add: wf_registry_def)
      with assms(1) have "p < next_ptr w" by (rule wf_world_obj_bound)
      with p show False by simp
    qed
    have "wf_registry this' w1"
      using assms(2) fresh o eq(1)
      by (auto simp add: wf_registry_def map_insert_def set_insort_key distinct_snd_insort_key)
    with wf1 eq show ?thesis by simp
  qed
qed

lemma wf_registry_deleteDevice:
  assumes "wf_registry this w"
  shows "wf_registry (fst (deleteDevice index this w)) (snd (deleteDevice index this w))"
  using assms by (auto simp add: wf_registry_def deleteDevice_def map_erase_def distinct_map_filter)

lemma on_handle_world:
  assumes "\<And>obj w. snd (m obj w) = emit (c obj) w"
  shows "snd (on_handle h m val s) = s \<or> (\<exists>e. snd (on_handle h m val s) = (fst s, emit e (snd s)))"
proof (cases "objs (snd s) h")
  case None
  then show ?thesis by (simp add: on_handle_def)
next
  case (Some obj)
  then have "snd (on_handle h m val s) = (fst s, emit (c obj) (snd s))"
    by (simp add: on_handle_def split_def assms)
  then show ?thesis by blast
qed

lemma wf_sys_emit: "wf_sys (fo, emit e w) = wf_sys (fo, w)"
  by (simp add: wf_sys_def wf_registry_def split: option.splits)

lemma wf_sys_fields:
  assumes "objs w' = objs w" and "devs w' = devs w" and "next_ptr w' = next_ptr w"
  shows "wf_sys (fo, w') = wf_sys (fo, w)"
  using assms wf_world_cong [of w' w]
  by (simp add: wf_sys_def wf_registry_def split: option.splits)

lemma wf_sys_on_handle:
  assumes "\<And>obj w. snd (m obj w) = emit (c obj) w" and "wf_sys s"
  shows "wf_sys (snd (on_handle h m val s))"
  using on_handle_world [of m c h val s, OF assms(1)] assms(2)
  by (cases s) (auto simp add: wf_sys_emit)

lemma wf_sys_exec:
  assumes "wf_sys s"
  shows "wf_sys (snd (exec drv x s))"
proof (cases s)
  case (Pair fo w)
  show ?thesis
  proof (cases x)
    case (CreateDevice index)
    show ?thesis
    proof (cases fo)
      case None
      with Pair CreateDevice assms show ?thesis by (simp add: on_manager_def)
    next
      case (Some this)
      obtain r this' w' where c: "createDevice drv index this w = (r, this', w')"
        by (cases "createDevice drv index this w")
      with wf_sys_createDevice [of w this drv index r this' w'] assms Pair Some
      have "wf_world w' \<and> wf_registry this' w'" by (simp add: wf_sys_def)
      with c Pair Some CreateDevice show ?thesis by (simp add: on_manager_def wf_sys_def)
    qed
  next
    case (DeleteDevice index)
    show ?thesis
    proof (cases fo)
      case None
      with Pair DeleteDevice assms show ?thesis by (simp add: on_manager_def)
    next
      case (Some this)
      with assms Pair have "wf_world w" "wf_registry this w" by (simp_all add: wf_sys_def)
      with wf_registry_deleteDevice [of this w index] Pair Some DeleteDevice
      show ?thesis by (simp add: on_manager_def wf_sys_def split_def) (simp add: deleteDevice_def)
    qed
  next
    case DeviceCount
    with Pair assms show ?thesis
      by (cases fo) (simp_all add: on_manager_def deviceCount_def freenect_num_devices_def
          drv_call_def wf_sys_emit)
  next
    case (StartRGB h)
    with assms wf_sys_on_handle [of "startRGB drv"] show ?thesis by simp
  next
    case (StopRGB h)
    with assms wf_sys_on_handle [of "stopRGB drv"] show ?thesis by simp
  next
    case (StartDepth h)
    with assms wf_sys_on_handle [of "startDepth drv"] show ?thesis by simp
  next
    case (StopDepth h)
    with assms wf_sys_on_handle [of "stopDepth drv"] show ?thesis by simp
  next
    case (SetTiltDegrees h angle)
    with assms wf_sys_on_handle [of "\<lambda>this. setTiltDegrees drv this angle"] show ?thesis by simp
  next
    case (SetLed h option)
    with assms wf_sys_on_handle [of "\<lambda>this. setLed drv this option"] show ?thesis by simp
  next
    case (GetAccelerometersMks h)
    with assms wf_sys_on_handle [of "getAccelerometers_mks drv"] show ?thesis by simp
  next
    case (GetAccelerometersRaw h)
    with assms wf_sys_on_handle [of "getAccelerometers_raw drv"] show ?thesis by simp
  next
    case (DepthFrame d buf ts)
    with Pair assms wf_sys_fields [of "snd (deliver_depth drv d buf ts w)" w fo]
    show ?thesis by (simp add: deliver_fields split_def)
  next
    case (RgbFrame d buf ts)
    with Pair assms wf_sys_fields [of "snd (deliver_rgb drv d buf ts w)" w fo]
    show ?thesis by (simp add: deliver_fields split_def)
  next
    case PumpBody
    with Pair assms show ?thesis
      by (cases fo) (simp_all add: on_manager_def split_def wf_sys_emit)
  next
    case Destroy
    show ?thesis
    proof (cases fo)
      case None
      with Pair Destroy assms show ?thesis by (simp add: on_manager_def)
    next
      case (Some this)
      with assms Pair have "wf_world w" by (simp add: wf_sys_def)
      with wf_world_Freenect_dtor [of w drv this] Pair Some Destroy
      show ?thesis by (simp add: on_manager_def wf_sys_def split_def)
    qed
  qed
qed

lemma wf_sys_run: "wf_sys s \<Longrightarrow> wf_sys (snd (run drv xs s))"
proof (induction xs arbitrary: s)
  case Nil
  then show ?case by simp
next
  case (Cons x xs)
  from Cons.prems have "wf_sys (snd (exec drv x s))" by (rule wf_sys_exec)
  then have "wf_sys (snd (run drv xs (snd (exec drv x s))))" by (rule Cons.IH)
  then show ?case by (simp add: split_def)
qed

lemma Freenect_ctor_ok:
  assumes "Freenect_ctor drv w = (Inr this, w')"
  shows "objs w' = objs w \<and> devs w' = devs w \<and> m_devices this = [] \<and> \<not> m_stop this"
  using assms
  by (auto simp add: Freenect_ctor_def freenect_init_def pthread_create_def drv_call_def
      alloc_def emit_def Let_def split: if_splits)

lemma Freenect_ctor_fail:
  assumes "Freenect_ctor drv w = (Inl e, w')"
  shows "objs w' = objs w \<and> devs w' = devs w"
  using assms
  by (auto simp add: Freenect_ctor_def freenect_init_def pthread_create_def drv_call_def
      alloc_def emit_def Let_def split: if_splits)

lemma wf_sys_session: "wf_sys (snd (session drv xs))"
proof (cases "Freenect_ctor drv world0")
  case (Pair r w)
  show ?thesis
  proof (cases r)
    case (Inl e)
    with Pair Freenect_ctor_fail [of drv world0 e w] have "objs w = Map.empty" "devs w = Map.empty"
      by (simp_all add: world0_def)
    then have "wf_sys (None, w)" by (simp add: wf_sys_def wf_world_def)
    with Pair Inl show ?thesis by (simp add: session_def)
  next
    case (Inr this)
    with Pair Freenect_ctor_ok [of drv world0 this w]
    have "objs w = Map.empty" "devs w = Map.empty" "m_devices this = []"
      by (simp_all add: world0_def)
    then have "wf_sys (Some this, w)" by (simp add: wf_sys_def wf_world_def wf_registry_def)
    then have "wf_sys (snd (run drv xs (Some this, w)))" by (rule wf_sys_run)
    with Pair Inr show ?thesis by (simp add: session_def)
  qed
qed

subsection \<open>The steps of teardown\<close>

lemma close_calls_Cons:
  "objs w (snd it) = Some obj \<Longrightarrow>
   close_calls w (it # rest) = Call (CloseDevice (m_dev obj)) # close_calls w rest"
  by (simp add: close_calls_def)

lemma close_calls_cong:
  "(\<And>p. p \<in> snd ` set m \<Longrightarrow> objs w' p = objs w p) \<Longrightarrow> close_calls w' m = close_calls w m"
  by (induction m) (simp_all add: close_calls_def)

lemma delete_T_objs_None:
  "objs w p = None \<Longrightarrow> objs (snd (delete_T drv q w)) p = None"
proof (cases "objs w q")
  case None
  assume "objs w p = None"
  with None show ?thesis by (simp add: delete_T_dead)
next
  case (Some obj)
  assume p: "objs w p = None"
  obtain r w' where rw: "delete_T drv q w = (r, w')" by (cases "delete_T drv q w")
  from delete_T_live [OF Some rw] have "objs w' = (objs w)(q := None)" by simp
  with p rw show ?thesis by simp
qed

lemma delete_each_objs_None:
  "objs w p = None \<Longrightarrow> objs (snd (delete_each drv m w)) p = None"
proof (induction m arbitrary: w)
  case Nil
  then show ?case by simp
next
  case (Cons it rest)
  obtain r w1 where rw: "delete_T drv (snd it) w = (r, w1)" by (cases "delete_T drv (snd it) w")
  with Cons.prems delete_T_objs_None [of w p drv "snd it"] have n1: "objs w1 p = None" by simp
  show ?case
  proof (cases r)
    case (Inl e)
    with rw n1 show ?thesis by simp
  next
    case (Inr u)
    with rw Cons.IH [OF n1] show ?thesis by simp
  qed
qed

lemma delete_each_steps:
  assumes "\<forall>p \<in> snd ` set m. p \<in> dom (objs w)" and "distinct (map snd m)"
    and "delete_each drv m w = (r, w')"
  shows "\<exists>evs. events w' = events w @ evs \<and> prefix evs (close_calls w m) \<and>
           threads w' = threads w \<and> ctxs w' = ctxs w \<and>
           (r = Inl DeviceCloseError \<or> r = Inr ()) \<and>
           (r = Inr () \<longrightarrow> evs = close_calls w m \<and> (\<forall>p \<in> snd ` set m. objs w' p = None))"
  using assms
proof (induction m arbitrary: w)
  case Nil
  then show ?case by (simp add: close_calls_def)
next
  case (Cons it rest)
  from Cons.prems(1) obtain obj where obj: "objs w (snd it) = Some obj" by auto
  obtain r1 w1 where rw: "delete_T drv (snd it) w = (r1, w1)"
    by (cases "delete_T drv (snd it) w")
  note live = delete_T_live [OF obj rw]
  from live have o1: "objs w1 = (objs w)(snd it := None)"
    and e1: "events w1 = events w @ [Call (CloseDevice (m_dev obj))]"
    and t1: "threads w1 = threads w" "ctxs w1 = ctxs w" by simp_all
  show ?case
  proof (cases "ret drv (events w) (CloseDevice (m_dev obj)) \<noteq> 0")
    case True
    with live have "r1 = Inl DeviceCloseError" by simp
    with rw Cons.prems(3) have "r = Inl DeviceCloseError" "w' = w1" by simp_all
    with e1 t1 obj show ?thesis by (simp add: close_calls_Cons)
  next
    case False
    with live have "r1 = Inr ()" by simp
    with rw Cons.prems(3) have rest: "delete_each drv rest w1 = (r, w')" by simp
    from Cons.prems(2) have notin: "snd it \<notin> snd ` set rest" and dist: "distinct (map snd rest)"
      by simp_all
    have same: "\<And>p. p \<in> snd ` set rest \<Longrightarrow> objs w1 p = objs w p"
    proof -
      fix p assume "p \<in> snd ` set rest"
      with notin have "p \<noteq> snd it" by blast
      with o1 show "objs w1 p = objs w p" by simp
    qed
    with Cons.prems(1) have live1: "\<forall>p \<in> snd ` set rest. p \<in> dom (objs w1)" by (simp add: dom_def)
    from Cons.IH [OF live1 dist rest] obtain evs where
      evs: "events w' = events w1 @ evs" "prefix evs (close_calls w1 rest)"
        "threads w' = threads w1" "ctxs w' = ctxs w1" "r = Inl DeviceCloseError \<or> r = Inr ()"
        "r = Inr () \<longrightarrow> evs = close_calls w1 rest \<and> (\<forall>p \<in> snd ` set rest. objs w' p = None)"
      by blast
    have cc: "close_calls w1 rest = close_calls w rest"
      using same by (rule close_calls_cong)
    from o1 have "objs w1 (snd it) = None" by simp
    with delete_each_objs_None [of w1 "snd it" drv rest] rest have gone: "objs w' (snd it) = None"
      by simp
    let ?evs = "Call (CloseDevice (m_dev obj)) # evs"
    have "events w' = events w @ ?evs" using evs(1) e1 by simp
    moreover have "prefix ?evs (close_calls w (it # rest))"
      using evs(2) cc obj by (simp add: close_calls_Cons)
    moreover have "r = Inr () \<longrightarrow> ?evs = close_calls w (it # rest) \<and>
        (\<forall>p \<in> snd ` set (it # rest). objs w' p = None)"
      using evs(6) cc obj gone by (simp add: close_calls_Cons)
    ultimately show ?thesis using evs(3,4,5) t1 by blast
  qed
qed

lemma teardown_tail:
  "freenect_shutdown drv c (snd (pthread_join drv t (emit StopSignalled w))) = (st, w4) \<Longrightarrow>
   events w4 = events w @ [StopSignalled, Call (PthreadJoin t), Call (Shutdown c)] \<and>
   objs w4 = objs w \<and> t \<notin> threads w4 \<and>
   st = ret drv (events w @ [StopSignalled, Call (PthreadJoin t)]) (Shutdown c) \<and>
   (if st = 0 then c \<notin> ctxs w4 else ctxs w4 = ctxs w)"
  by (auto simp add: freenect_shutdown_def pthread_join_def drv_call_def emit_def split: if_splits)

subsection \<open>The pump loop under any schedule\<close>

lemma pump_step_TestStop:
  "pump_step drv this TestStop w = (if m_stop this then Returned else InBody, w)"
  by (simp add: pump_step_def)

lemma pump_step_InBody:
  "pump_step drv this InBody w =
     (if ret drv (events w) (ProcessEvents (m_ctx this)) \<noteq> 0 then Threw else TestStop,
      emit (Call (ProcessEvents (m_ctx this))) w)"
  by (simp add: pump_step_def pump_body_def guarded_eq)

lemma pump_step_done:
  "pump_step drv this Returned w = (Returned, w)" "pump_step drv this Threw w = (Threw, w)"
  by (simp_all add: pump_step_def)

lemma pump_calls_emit:
  "pump_calls (emit e w) = pump_calls w + (if is_pump_call e then 1 else 0)"
  by (simp add: pump_calls_def)

lemma interleave_append:
  "interleave drv (pre @ post) s = interleave drv post (interleave drv pre s)"
  by (induction pre arbitrary: s) simp_all

lemma after_stop:
  assumes "m_stop this" and "interleave drv sched (this, pc, w) = (this', pc', w')"
  shows "m_stop this' \<and>
         pump_calls w' \<le> pump_calls w + (if pc = InBody then 1 else 0) \<and>
         (pc = Returned \<or> pc = Threw \<longrightarrow> pc' = pc) \<and>
         (pc = TestStop \<and> 1 \<le> pump_moves sched \<longrightarrow> pc' = Returned) \<and>
         (2 \<le> pump_moves sched \<longrightarrow> pc' = Returned \<or> pc' = Threw)"
  using assms
proof (induction sched arbitrary: this pc w)
  case Nil
  then show ?case by (simp add: pump_moves_def)
next
  case (Cons a sched)
  show ?case
  proof (cases a)
    case Destroyer
    with Cons.prems have run: "interleave drv sched (this\<lparr>m_stop := True\<rparr>, pc, emit StopSignalled w)
        = (this', pc', w')" by simp
    have "m_stop (this\<lparr>m_stop := True\<rparr>)" by simp
    from Cons.IH [OF this run] Destroyer show ?thesis
      by (simp add: pump_calls_emit pump_moves_def)
  next
    case PumpThread
    show ?thesis
    proof (cases pc)
      case TestStop
      with PumpThread Cons.prems have run: "interleave drv sched (this, Returned, w) = (this', pc', w')"
        by (simp add: pump_step_TestStop)
      from Cons.IH [OF Cons.prems(1) run] PumpThread TestStop show ?thesis
        by (simp add: pump_moves_def)
    next
      case InBody
      let ?pc1 = "if ret drv (events w) (ProcessEvents (m_ctx this)) \<noteq> 0 then Threw else TestStop"
      from InBody PumpThread Cons.prems
      have run: "interleave drv sched (this, ?pc1, emit (Call (ProcessEvents (m_ctx this))) w)
          = (this', pc', w')"
        by (simp add: pump_step_InBody)
      from Cons.IH [OF Cons.prems(1) run] PumpThread InBody show ?thesis
        by (auto simp add: pump_moves_def pump_calls_emit split: if_splits)
    next
      case Returned
      with PumpThread Cons.prems have run: "interleave drv sched (this, Returned, w) = (this', pc', w')"
        by (simp add: pump_step_done)
      from Cons.IH [OF Cons.prems(1) run] PumpThread Returned show ?thesis
        by (simp add: pump_moves_def)
    next
      case Threw
      with PumpThread Cons.prems have run: "interleave drv sched (this, Threw, w) = (this', pc', w')"
        by (simp add: pump_step_done)
      from Cons.IH [OF Cons.prems(1) run] PumpThread Threw show ?thesis
        by (simp add: pump_moves_def)
    qed
  qed
qed

subsection \<open>The keys of the registry\<close>

lemma keys_map_insert: "keys (map_insert k v m) = insert k (keys m)"
  by (auto simp add: keys_def map_insert_def set_insort_key)

lemma keys_map_erase: "keys (map_erase k m) = keys m - {k}"
  by (auto simp add: keys_def map_erase_def)

text \<open>Both operations keep the map in ascending key order, and its keys distinct.\<close>

lemma sorted_map_insert: "sorted (map fst m) \<Longrightarrow> sorted (map fst (map_insert k v m))"
  by (simp add: map_insert_def sorted_insort_key)

lemma sorted_map_erase: "sorted (map fst m) \<Longrightarrow> sorted (map fst (map_erase k m))"
  by (simp add: map_erase_def sorted_filter)

lemma distinct_map_insert: "distinct (map fst m) \<Longrightarrow> distinct (map fst (map_insert k v m))"
  by (induction m) (auto simp add: map_insert_def set_insort_key)

lemma distinct_map_erase: "distinct (map fst m) \<Longrightarrow> distinct (map fst (map_erase k m))"
  by (simp add: map_erase_def distinct_map_filter)

lemma createDevice_ok:
  assumes "createDevice drv index this w = (Inr q, this', w')"
  shows "\<exists>p. new_T drv (m_ctx this) index w = (Inr p, w') \<and>
             this' = this\<lparr>m_devices := map_insert index p (m_devices this)\<rparr> \<and>
             map_at (m_devices this') index = Some q"
  using assms
  by (auto simp add: createDevice_def Let_def split: prod.splits sum.splits option.splits)

lemma run_registry:
  assumes "\<forall>x \<in> set xs. is_registry_op x" and "run drv xs (Some this, w) = (rs, s')"
    and "\<forall>r \<in> set rs. ok r"
  shows "\<exists>this' w'. s' = (Some this', w') \<and>
           keys (m_devices this') =
             (keys (m_devices this) - {i. DeleteDevice i \<in> set xs}) \<union> created_not_deleted xs"
  using assms
proof (induction xs arbitrary: this w rs)
  case Nil
  then show ?case by auto
next
  case (Cons x xs)
  obtain r s1 where ex: "exec drv x (Some this, w) = (r, s1)"
    by (cases "exec drv x (Some this, w)")
  obtain rs1 where run1: "run drv xs s1 = (rs1, s')" and rs: "rs = r # rs1"
    using Cons.prems(2) ex by (auto split: prod.splits)
  from rs Cons.prems(3) have okr: "ok r" and ok1: "\<forall>r \<in> set rs1. ok r" by simp_all
  from Cons.prems(1) have reg: "is_registry_op x" and reg1: "\<forall>x \<in> set xs. is_registry_op x"
    by simp_all
  from reg show ?case
  proof (cases x rule: is_registry_op.cases)
    case (1 index)
    obtain rc this1 w1 where c: "createDevice drv index this w = (rc, this1, w1)"
      by (cases "createDevice drv index this w")
    with ex 1 have r: "r = map_sum id Ref rc" and s1: "s1 = (Some this1, w1)"
      by (simp_all add: on_manager_def)
    from r okr obtain q where "rc = Inr q" by (cases rc) simp_all
    with c createDevice_ok [of drv index this w q this1 w1] obtain p where
      "m_devices this1 = map_insert index p (m_devices this)" by auto
    then have k1: "keys (m_devices this1) = insert index (keys (m_devices this))"
      by (simp add: keys_map_insert)
    from Cons.IH [OF reg1 run1 [unfolded s1] ok1] obtain this' w' where
      s': "s' = (Some this', w')" and
      k': "keys (m_devices this') =
             (keys (m_devices this1) - {i. DeleteDevice i \<in> set xs}) \<union> created_not_deleted xs"
      by blast
    from k' k1 1 have "keys (m_devices this') =
        (keys (m_devices this) - {i. DeleteDevice i \<in> set (x # xs)}) \<union> created_not_deleted (x # xs)"
      by auto
    with s' show ?thesis by blast
  next
    case (2 index)
    with ex have s1: "s1 = (Some (this\<lparr>m_devices := map_erase index (m_devices this)\<rparr>), w)"
      by (simp add: on_manager_def deleteDevice_def)
    from Cons.IH [OF reg1 run1 [unfolded s1] ok1] obtain this' w' where
      s': "s' = (Some this', w')" and
      k': "keys (m_devices this') =
             (keys (map_erase index (m_devices this)) - {i. DeleteDevice i \<in> set xs})
               \<union> created_not_deleted xs"
      by auto
    from k' 2 have "keys (m_devices this') =
        (keys (m_devices this) - {i. DeleteDevice i \<in> set (x # xs)}) \<union> created_not_deleted (x # xs)"
      by (auto simp add: keys_map_erase)
    with s' show ?thesis by blast
  qed (use reg in simp_all)
qed

lemma created_not_deleted_iff:
  "i \<in> created_not_deleted xs \<longleftrightarrow>
     (\<exists>pre post. xs = pre @ CreateDevice i # post \<and> DeleteDevice i \<notin> set post)"
proof (induction xs)
  case Nil
  show ?case by simp
next
  case (Cons x xs)
  show ?case
  proof (cases "x = CreateDevice i")
    case True
    show ?thesis
    proof (cases "DeleteDevice i \<in> set xs")
      case del: True
      with True Cons.IH show ?thesis
        by (auto simp add: Cons_eq_append_conv)
    next
      case False
      with True have "i \<in> created_not_deleted (x # xs)" by simp
      moreover from True False
      have "\<exists>pre post. x # xs = pre @ CreateDevice i # post \<and> DeleteDevice i \<notin> set post"
        by (intro exI [of _ "[]"] exI [of _ xs]) simp
      ultimately show ?thesis by blast
    qed
  next
    case False
    then have "i \<in> created_not_deleted (x # xs) \<longleftrightarrow> i \<in> created_not_deleted xs"
      by (cases x) auto
    moreover from False
    have "(\<exists>pre post. x # xs = pre @ CreateDevice i # post \<and> DeleteDevice i \<notin> set post) \<longleftrightarrow>
          (\<exists>pre post. xs = pre @ CreateDevice i # post \<and> DeleteDevice i \<notin> set post)"
      by (auto simp add: Cons_eq_append_conv)
    ultimately show ?thesis using Cons.IH by simp
  qed
qed

subsection \<open>Concrete runs\<close>

text \<open>The definitions a concrete run unfolds, and the states used as examples.\<close>

lemmas model_defs = session_def Freenect_ctor_def freenect_init_def pthread_create_def
  drv_call_def alloc_def emit_def world0_def willing_def failing_def on_manager_def on_handle_def
  createDevice_def deleteDevice_def new_T_def FreenectDevice_ctor_def freenect_open_device_def
  freenect_set_user_def freenect_set_rgb_format_def freenect_set_depth_format_def
  freenect_set_depth_callback_def freenect_set_rgb_callback_def upd_dev_def new_device_def
  map_insert_def map_erase_def map_at_def Let_def

lemma guarded_surfaces: "surfaces (guarded drv c msg w) drv w c msg"
  by (simp add: surfaces_def guarded_eq)

lemma accel_surfaces:
  "surfaces (getAccelerometers_mks drv this w) drv w (GetMksAccel (m_dev this))
     ''Cannot get mks accemerometers''"
  "surfaces (getAccelerometers_raw drv this w) drv w (GetRawAccel (m_dev this))
     ''Cannot get raw accemerometers''"
  by (simp_all add: surfaces_def getAccelerometers_mks_def getAccelerometers_raw_def drv_call_def
      del: split_paired_Ex)

lemma session_one_device:
  "session willing [CreateDevice 0] =
  ([Inr (Ref 2)], Some \<lparr>m_ctx = 1, m_stop = False, m_thread = 1, m_devices = [(0, 2)]\<rparr>,
   \<lparr>objs = [2 \<mapsto> \<lparr>m_dev = 3\<rparr>],
    devs = [3 \<mapsto> \<lparr>user = Some 2, rgb_format = Some FREENECT_FORMAT_RGB,
              depth_format = Some FREENECT_FORMAT_11_BIT,
              depth_cb = Some Fn_freenect_depth_callback, rgb_cb = Some Fn_freenect_rgb_callback\<rparr>],
    ctxs = {1}, threads = {1}, next_ptr = 4, next_tid = 2,
    events = [Call Init, Call PthreadCreate, Call (OpenDevice 1 0),
        Call (SetUser 3 2), Call (SetRgbFormat 3 FREENECT_FORMAT_RGB),
        Call (SetDepthFormat 3 FREENECT_FORMAT_11_BIT),
        Call (SetDepthCallback 3 Fn_freenect_depth_callback),
        Call (SetRgbCallback 3 Fn_freenect_rgb_callback)]\<rparr>)"
  by (simp add: model_defs eval_nat_numeral)

lemma session_one_device_eq: "session willing [CreateDevice 0] = ([Inr (Ref 2)], Some manager1, world1)"
  by (simp add: world1_def manager1_def session_one_device)

lemma world1_fields:
  "objs world1 2 = Some \<lparr>m_dev = 3\<rparr>" "next_ptr world1 = 4"
  "events world1 = [Call Init, Call PthreadCreate, Call (OpenDevice 1 0),
        Call (SetUser 3 2), Call (SetRgbFormat 3 FREENECT_FORMAT_RGB),
        Call (SetDepthFormat 3 FREENECT_FORMAT_11_BIT),
        Call (SetDepthCallback 3 Fn_freenect_depth_callback),
        Call (SetRgbCallback 3 Fn_freenect_rgb_callback)]"
  "threads world1 = {1}" "ctxs world1 = {1}"
  by (simp_all add: world1_def session_one_device)

subsection \<open>The user pointer is written once\<close>

lemma quiet_ext_refl: "quiet_ext w w"
  by (simp add: quiet_ext_def quiet_def)

lemma quiet_ext_trans: "quiet_ext w w1 \<Longrightarrow> quiet_ext w1 w2 \<Longrightarrow> quiet_ext w w2"
  unfolding quiet_ext_def quiet_def
  by (elim conjE exE, intro conjI) (auto simp add: le_trans)

lemma quiet_ext_emit:
  assumes "\<And>d p. e \<noteq> Call (SetUser d p)"
  shows "quiet_ext w (emit e w)"
proof -
  from assms have "\<forall>d p. Call (SetUser d p) \<noteq> e" by metis
  then show ?thesis by (simp add: quiet_ext_def quiet_def)
qed

lemma written_once_quiet_ext:
  assumes "written_once w" and "quiet_ext w w'"
  shows "written_once w'"
proof -
  from assms(2) obtain evs where ev: "events w' = events w @ evs" and q: "quiet evs"
    and n: "next_ptr w \<le> next_ptr w'"
    and o: "\<And>h obj. objs w' h = Some obj \<Longrightarrow> objs w h = Some obj"
    by (auto simp add: quiet_ext_def)
  from ev q have same: "\<And>d p. Call (SetUser d p) \<in> set (events w') \<longleftrightarrow>
      Call (SetUser d p) \<in> set (events w)"
    by (auto simp add: quiet_def)
  show ?thesis
    unfolding written_once_def
  proof (intro conjI allI impI)
    fix d p assume "Call (SetUser d p) \<in> set (events w')"
    with same have "Call (SetUser d p) \<in> set (events w)" by simp
    with assms(1) have "d < next_ptr w" unfolding written_once_def by blast
    with n show "d < next_ptr w'" by simp
  next
    fix d p q
    assume "Call (SetUser d p) \<in> set (events w') \<and> Call (SetUser d q) \<in> set (events w')"
    with same have "Call (SetUser d p) \<in> set (events w) \<and> Call (SetUser d q) \<in> set (events w)"
      by simp
    with assms(1) show "p = q" unfolding written_once_def by blast
  next
    fix h obj assume "objs w' h = Some obj"
    then have "objs w h = Some obj" by (rule o)
    with assms(1) have "Call (SetUser (m_dev obj) h) \<in> set (events w)"
      unfolding written_once_def by blast
    with same show "Call (SetUser (m_dev obj) h) \<in> set (events w')" by simp
  qed
qed

lemma FreenectDevice_ctor_events:
  assumes "FreenectDevice_ctor drv this ctx index w = (Inr obj, w')"
  shows "events w' = events w @
           [Call (OpenDevice ctx index), Call (SetUser (m_dev obj) this),
            Call (SetRgbFormat (m_dev obj) FREENECT_FORMAT_RGB),
            Call (SetDepthFormat (m_dev obj) FREENECT_FORMAT_11_BIT),
            Call (SetDepthCallback (m_dev obj) Fn_freenect_depth_callback),
            Call (SetRgbCallback (m_dev obj) Fn_freenect_rgb_callback)]"
  using assms
  by (auto simp add: FreenectDevice_ctor_def freenect_open_device_def drv_call_def alloc_def
      freenect_set_user_def freenect_set_rgb_format_def freenect_set_depth_format_def
      freenect_set_depth_callback_def freenect_set_rgb_callback_def upd_dev_def emit_def
      Let_def split: if_splits)

lemma new_T_events:
  assumes "new_T drv ctx index w = (Inr p, w')"
  shows "events w' = events w @
           [Call (OpenDevice ctx index), Call (SetUser (Suc p) p),
            Call (SetRgbFormat (Suc p) FREENECT_FORMAT_RGB),
            Call (SetDepthFormat (Suc p) FREENECT_FORMAT_11_BIT),
            Call (SetDepthCallback (Suc p) Fn_freenect_depth_callback),
            Call (SetRgbCallback (Suc p) Fn_freenect_rgb_callback)]"
proof -
  obtain r w2 where c: "FreenectDevice_ctor drv (next_ptr w) ctx index (snd (alloc w)) = (r, w2)"
    by (cases "FreenectDevice_ctor drv (next_ptr w) ctx index (snd (alloc w))")
  with assms obtain obj where r: "r = Inr obj" and p: "p = next_ptr w"
    and w': "w' = w2\<lparr>objs := (objs w2)(next_ptr w \<mapsto> obj)\<rparr>"
    by (auto simp add: new_T_def alloc_def split: sum.splits)
  from c r FreenectDevice_ctor_ok [of drv "next_ptr w" ctx index "snd (alloc w)" obj w2]
  have "m_dev obj = Suc (next_ptr w)" by simp
  with c r FreenectDevice_ctor_events [of drv "next_ptr w" ctx index "snd (alloc w)" obj w2] p w'
  show ?thesis by simp
qed

lemma written_once_new_T:
  assumes "written_once w"
  shows "written_once (snd (new_T drv ctx index w))"
proof (cases "new_T drv ctx index w")
  case (Pair r w')
  show ?thesis
  proof (cases r)
    case (Inl e)
    with Pair new_T_fail [of drv ctx index w e w']
    have w': "w' = emit (Call (OpenDevice ctx index)) (snd (alloc w))" by simp
    have "quiet_ext w w'"
      unfolding w' quiet_ext_def quiet_def by simp
    with assms Pair show ?thesis by (simp add: written_once_quiet_ext)
  next
    case (Inr p)
    with Pair new_T_ok [of drv ctx index w p w'] new_T_events [of drv ctx index w p w']
    have p: "p = next_ptr w" and o: "objs w' = (objs w)(p \<mapsto> \<lparr>m_dev = Suc p\<rparr>)"
      and n: "next_ptr w' = Suc (Suc p)"
      and ev: "events w' = events w @
           [Call (OpenDevice ctx index), Call (SetUser (Suc p) p),
            Call (SetRgbFormat (Suc p) FREENECT_FORMAT_RGB),
            Call (SetDepthFormat (Suc p) FREENECT_FORMAT_11_BIT),
            Call (SetDepthCallback (Suc p) Fn_freenect_depth_callback),
            Call (SetRgbCallback (Suc p) Fn_freenect_rgb_callback)]"
      by simp_all
    from ev have mem: "\<And>d q. Call (SetUser d q) \<in> set (events w') \<longleftrightarrow>
        Call (SetUser d q) \<in> set (events w) \<or> (d = Suc p \<and> q = p)"
      by auto
    from assms have old: "\<And>d q. Call (SetUser d q) \<in> set (events w) \<Longrightarrow> d < next_ptr w"
      unfolding written_once_def by blast
    have "written_once w'"
      unfolding written_once_def
    proof (intro conjI allI impI)
      fix d q assume "Call (SetUser d q) \<in> set (events w')"
      with mem have "Call (SetUser d q) \<in> set (events w) \<or> d = Suc p" by blast
      with old p n show "d < next_ptr w'" by (auto simp add: less_Suc_eq)
    next
      fix d q q'
      assume a: "Call (SetUser d q) \<in> set (events w') \<and> Call (SetUser d q') \<in> set (events w')"
      show "q = q'"
      proof (cases "d = Suc p")
        case True
        have "\<And>x. Call (SetUser d x) \<notin> set (events w)"
        proof
          fix x assume "Call (SetUser d x) \<in> set (events w)"
          then have "d < next_ptr w" by (rule old)
          with True p show False by simp
        qed
        with a mem show ?thesis by blast
      next
        case False
        with a mem have "Call (SetUser d q) \<in> set (events w) \<and> Call (SetUser d q') \<in> set (events w)"
          by blast
        with assms show ?thesis unfolding written_once_def by blast
      qed
    next
      fix h obj assume h: "objs w' h = Some obj"
      show "Call (SetUser (m_dev obj) h) \<in> set (events w')"
      proof (cases "h = p")
        case True
        with h o have "m_dev obj = Suc p" by auto
        with True mem show ?thesis by blast
      next
        case False
        with h o have "objs w h = Some obj" by simp
        with assms have "Call (SetUser (m_dev obj) h) \<in> set (events w)"
          unfolding written_once_def by blast
        with mem show ?thesis by blast
      qed
    qed
    with Pair show ?thesis by simp
  qed
qed

lemma quiet_ext_delete_T: "quiet_ext w (snd (delete_T drv p w))"
proof (cases "objs w p")
  case None
  then show ?thesis by (simp add: delete_T_dead quiet_ext_refl)
next
  case (Some obj)
  obtain r w' where rw: "delete_T drv p w = (r, w')" by (cases "delete_T drv p w")
  from delete_T_live [OF Some rw] have "objs w' = (objs w)(p := None)" "next_ptr w' = next_ptr w"
    "events w' = events w @ [Call (CloseDevice (m_dev obj))]" by simp_all
  then have "quiet_ext w w'"
    by (auto simp add: quiet_ext_def quiet_def split: if_splits)
  with rw show ?thesis by simp
qed

lemma quiet_ext_delete_each: "quiet_ext w (snd (delete_each drv m w))"
proof (induction m arbitrary: w)
  case Nil
  show ?case by (simp add: quiet_ext_refl)
next
  case (Cons it rest)
  obtain r w1 where rw: "delete_T drv (snd it) w = (r, w1)" by (cases "delete_T drv (snd it) w")
  with quiet_ext_delete_T [of w drv "snd it"] have q1: "quiet_ext w w1" by simp
  show ?case
  proof (cases r)
    case (Inl e)
    with rw q1 show ?thesis by simp
  next
    case (Inr u)
    from q1 Cons.IH [of w1] have "quiet_ext w (snd (delete_each drv rest w1))"
      by (rule quiet_ext_trans)
    with rw Inr show ?thesis by simp
  qed
qed

lemma quiet_ext_Freenect_dtor: "quiet_ext w (snd (snd (Freenect_dtor drv this w)))"
proof (cases "delete_each drv (m_devices this) w")
  case (Pair r w1)
  from quiet_ext_delete_each [of w drv "m_devices this"] Pair have q1: "quiet_ext w w1" by simp
  show ?thesis
  proof (cases r)
    case (Inl e)
    with Pair q1 show ?thesis by (simp add: Freenect_dtor_def)
  next
    case (Inr u)
    let ?w4 = "snd (freenect_shutdown drv (m_ctx this) (snd (pthread_join drv (m_thread this)
                 (emit StopSignalled w1))))"
    obtain st where t: "freenect_shutdown drv (m_ctx this) (snd (pthread_join drv (m_thread this)
        (emit StopSignalled w1))) = (st, ?w4)"
      by (cases "freenect_shutdown drv (m_ctx this) (snd (pthread_join drv (m_thread this)
        (emit StopSignalled w1)))") simp
    from teardown_tail [OF t] have "events ?w4 = events w1 @ [StopSignalled,
        Call (PthreadJoin (m_thread this)), Call (Shutdown (m_ctx this))]" "objs ?w4 = objs w1"
      by simp_all
    moreover have "next_ptr ?w4 = next_ptr w1" by (simp add: teardown_tail_fields)
    ultimately have "quiet_ext w1 ?w4" by (simp add: quiet_ext_def quiet_def)
    with q1 have "quiet_ext w ?w4" by (rule quiet_ext_trans)
    moreover have "snd (snd (Freenect_dtor drv this w)) = ?w4"
      using Pair Inr by (simp add: Freenect_dtor_def Let_def split_def)
    ultimately show ?thesis by simp
  qed
qed

lemma quiet_ext_on_handle:
  assumes "\<And>obj w. snd (m obj w) = emit (Call (c obj)) w" and "\<And>obj d p. c obj \<noteq> SetUser d p"
  shows "quiet_ext (snd s) (snd (snd (on_handle h m val s)))"
proof (cases "objs (snd s) h")
  case None
  then show ?thesis by (simp add: on_handle_def quiet_ext_refl)
next
  case (Some obj)
  then have "snd (snd (on_handle h m val s)) = emit (Call (c obj)) (snd s)"
    by (simp add: on_handle_def split_def assms(1))
  with assms(2) show ?thesis by (simp add: quiet_ext_emit)
qed

lemma quiet_ext_trampolines:
  "quiet_ext w (snd (freenect_depth_callback drv d buf ts w))"
  "quiet_ext w (snd (freenect_rgb_callback drv d buf ts w))"
  by (auto simp add: freenect_depth_callback_def freenect_rgb_callback_def freenect_get_user_eq
      virtual_call_def quiet_ext_def quiet_def split: option.splits)

lemma quiet_ext_deliver:
  "quiet_ext w (snd (deliver_depth drv d buf ts w))"
  "quiet_ext w (snd (deliver_rgb drv d buf ts w))"
proof -
  have inv: "\<And>cb buf. quiet_ext w (snd (invoke drv cb d buf ts w))"
  proof -
    fix cb buf show "quiet_ext w (snd (invoke drv cb d buf ts w))"
      by (cases cb) (simp_all add: quiet_ext_trampolines)
  qed
  show "quiet_ext w (snd (deliver_depth drv d buf ts w))"
    by (simp add: deliver_depth_def inv quiet_ext_refl split: option.splits)
  show "quiet_ext w (snd (deliver_rgb drv d buf ts w))"
    by (simp add: deliver_rgb_def inv quiet_ext_refl split: option.splits)
qed

lemma written_once_exec:
  assumes "written_once (snd s)"
  shows "written_once (snd (snd (exec drv x s)))"
proof (cases s)
  case (Pair fo w)
  with assms have wo: "written_once w" by simp
  have wq: "\<And>w'. quiet_ext w w' \<Longrightarrow> written_once w'"
    using wo by (rule written_once_quiet_ext)
  show ?thesis
  proof (cases x)
    case (CreateDevice index)
    show ?thesis
    proof (cases fo)
      case None
      with Pair CreateDevice wo show ?thesis by (simp add: on_manager_def)
    next
      case (Some this)
      have "snd (snd (createDevice drv index this w)) = snd (new_T drv (m_ctx this) index w)"
        by (simp add: createDevice_def Let_def split: prod.splits sum.splits option.splits)
      with written_once_new_T [OF wo, of drv "m_ctx this" index] Pair Some CreateDevice
      show ?thesis by (simp add: on_manager_def split_def)
    qed
  next
    case (DeleteDevice index)
    with Pair wo show ?thesis
      by (cases fo) (simp_all add: on_manager_def deleteDevice_def)
  next
    case DeviceCount
    with Pair wo show ?thesis
      by (cases fo) (auto simp add: on_manager_def deviceCount_def
          freenect_num_devices_def drv_call_def intro!: wq quiet_ext_emit)
  next
    case (StartRGB h)
    with Pair quiet_ext_on_handle [of "startRGB drv" "\<lambda>obj. RgbStart (m_dev obj)" s h]
    show ?thesis by (auto intro!: wq)
  next
    case (StopRGB h)
    with Pair quiet_ext_on_handle [of "stopRGB drv" "\<lambda>obj. RgbStop (m_dev obj)" s h]
    show ?thesis by (auto intro!: wq)
  next
    case (StartDepth h)
    with Pair quiet_ext_on_handle [of "startDepth drv" "\<lambda>obj. DepthStart (m_dev obj)" s h]
    show ?thesis by (auto intro!: wq)
  next
    case (StopDepth h)
    with Pair quiet_ext_on_handle [of "stopDepth drv" "\<lambda>obj. DepthStop (m_dev obj)" s h]
    show ?thesis by (auto intro!: wq)
  next
    case (SetTiltDegrees h angle)
    with Pair quiet_ext_on_handle [of "\<lambda>this. setTiltDegrees drv this angle"
        "\<lambda>obj. SetTiltDegs (m_dev obj) angle" s h]
    show ?thesis by (auto intro!: wq)
  next
    case (SetLed h option)
    with Pair quiet_ext_on_handle [of "\<lambda>this. setLed drv this option"
        "\<lambda>obj. SetLedOption (m_dev obj) option" s h]
    show ?thesis by (auto intro!: wq)
  next
    case (GetAccelerometersMks h)
    with Pair quiet_ext_on_handle [of "getAccelerometers_mks drv" "\<lambda>obj. GetMksAccel (m_dev obj)" s h]
    show ?thesis by (auto intro!: wq)
  next
    case (GetAccelerometersRaw h)
    with Pair quiet_ext_on_handle [of "getAccelerometers_raw drv" "\<lambda>obj. GetRawAccel (m_dev obj)" s h]
    show ?thesis by (auto intro!: wq)
  next
    case (DepthFrame d buf ts)
    with Pair quiet_ext_deliver(1) [of w drv d buf ts] show ?thesis
      by (auto simp add: split_def intro!: wq)
  next
    case (RgbFrame d buf ts)
    with Pair quiet_ext_deliver(2) [of w drv d buf ts] show ?thesis
      by (auto simp add: split_def intro!: wq)
  next
    case PumpBody
    with Pair wo show ?thesis
      by (cases fo) (auto simp add: on_manager_def split_def intro!: wq quiet_ext_emit)
  next
    case Destroy
    with Pair wo quiet_ext_Freenect_dtor [of w drv] show ?thesis
      by (cases fo) (auto simp add: on_manager_def split_def intro!: wq)
  qed
qed

lemma written_once_run: "written_once (snd s) \<Longrightarrow> written_once (snd (snd (run drv xs s)))"
proof (induction xs arbitrary: s)
  case Nil
  then show ?case by simp
next
  case (Cons x xs)
  from Cons.prems have "written_once (snd (snd (exec drv x s)))" by (rule written_once_exec)
  then have "written_once (snd (snd (run drv xs (snd (exec drv x s)))))" by (rule Cons.IH)
  then show ?case by (simp add: split_def)
qed

lemma Freenect_ctor_events:
  "set (events (snd (Freenect_ctor drv w))) \<subseteq> set (events w) \<union> {Call Init, Call PthreadCreate}"
  by (auto simp add: Freenect_ctor_def freenect_init_def pthread_create_def drv_call_def
      alloc_def emit_def Let_def split: if_splits)

lemma written_once_session: "written_once (snd (snd (session drv xs)))"
proof (cases "Freenect_ctor drv world0")
  case (Pair r w)
  from Freenect_ctor_events [of drv world0] Pair
  have ev: "set (events w) \<subseteq> {Call Init, Call PthreadCreate}" by (simp add: world0_def)
  have o: "objs w = Map.empty"
  proof (cases r)
    case (Inl e)
    with Pair Freenect_ctor_fail [of drv world0 e w] show ?thesis by (simp add: world0_def)
  next
    case (Inr this)
    with Pair Freenect_ctor_ok [of drv world0 this w] show ?thesis by (simp add: world0_def)
  qed
  from ev have "\<And>d p. Call (SetUser d p) \<notin> set (events w)" by auto
  with o have wo: "written_once w" by (simp add: written_once_def)
  show ?thesis
  proof (cases r)
    case (Inl e)
    with Pair wo show ?thesis by (simp add: session_def)
  next
    case (Inr this)
    from wo have "written_once (snd (Some this, w))" by simp
    then have "written_once (snd (snd (run drv xs (Some this, w))))" by (rule written_once_run)
    with Pair Inr show ?thesis by (simp add: session_def)
  qed
qed

subsection \<open>Further facts about the pump loop and \<open>deleteDevice\<close>\<close>

lemma pump_repeats:
  assumes "\<not> m_stop this" and "\<forall>h. ret drv h (ProcessEvents (m_ctx this)) = 0"
  shows "\<exists>w'. interleave drv (replicate (2 * n) PumpThread) (this, TestStop, w) = (this, TestStop, w') \<and>
              pump_calls w' = pump_calls w + n"
proof (induction n arbitrary: w)
  case 0
  show ?case by simp
next
  case (Suc n)
  let ?w1 = "emit (Call (ProcessEvents (m_ctx this))) w"
  from Suc.IH [of ?w1] obtain w' where
    "interleave drv (replicate (2 * n) PumpThread) (this, TestStop, ?w1) = (this, TestStop, w')"
    "pump_calls w' = pump_calls ?w1 + n" by blast
  with assms show ?case
    by (simp add: pump_step_TestStop pump_step_InBody pump_calls_emit)
qed

lemmas pump_defs = pump_step_def pump_body_def guarded_def drv_call_def emit_def willing_def
  manager0_def world0_def pump_calls_def pump_moves_def

lemma deleteDevice_world: "snd (deleteDevice index this w) = w"
  by (simp add: deleteDevice_def)

lemma deleteDevice_keys:
  "keys (m_devices (fst (deleteDevice index this w))) = keys (m_devices this) - {index}"
  by (simp add: deleteDevice_def keys_map_erase)

lemma deleteDevice_absent:
  "index \<notin> keys (m_devices this) \<Longrightarrow> deleteDevice index this w = (this, w)"
proof -
  assume "index \<notin> keys (m_devices this)"
  then have "filter (\<lambda>kv. fst kv \<noteq> index) (m_devices this) = m_devices this"
    by (induction "m_devices this") (auto simp add: keys_def filter_id_conv)
  then show ?thesis by (simp add: deleteDevice_def map_erase_def)
qed

subsection \<open>Two devices, the first of which cannot be closed\<close>

lemma session_two_devices:
  "session (failing (CloseDevice 3)) [CreateDevice 0, CreateDevice 1] =
     ([Inr (Ref 2), Inr (Ref 4)], Some manager2, world2)"
  by (simp add: world2_def manager2_def model_defs eval_nat_numeral)

lemma world2_fields:
  "objs world2 2 = Some \<lparr>m_dev = 3\<rparr>" "objs world2 4 = Some \<lparr>m_dev = 5\<rparr>"
  "threads world2 = {1}" "ctxs world2 = {1}"
  by (simp_all add: world2_def model_defs eval_nat_numeral)

lemmas teardown_defs = Freenect_dtor_def delete_T_def FreenectDevice_dtor_def
  freenect_close_device_def freenect_shutdown_def pthread_join_def drv_call_def emit_def
  teardown_steps_def close_calls_def failing_def willing_def Let_def

subsection \<open>Teardown when no close is refused\<close>

text \<open>
  What \<open>~Freenect\<close> does in a state a session can reach, read off its result: the log
  grows by an initial part of \<open>teardown_steps\<close>, and when the result is not
  \<open>DeviceCloseError\<close> by all of it, with every registered object destroyed, the flag
  set and the thread joined before \<open>freenect_shutdown\<close> is called.
\<close>

lemma Freenect_dtor_steps:
  assumes "session drv xs = (rs, Some this, w)"
    and "Freenect_dtor drv this w = (r, this', w')"
  shows "\<exists>evs. events w' = events w @ evs \<and> prefix evs (teardown_steps this w) \<and>
           (r = Inl DeviceCloseError \<or> r = Inl ShutdownError \<or> r = Inr ()) \<and>
           (r \<noteq> Inl DeviceCloseError \<longrightarrow>
              evs = teardown_steps this w \<and> m_stop this' \<and> m_thread this \<notin> threads w' \<and>
              (\<forall>p \<in> snd ` set (m_devices this). objs w' p = None)) \<and>
           (r = Inr () \<longrightarrow> m_ctx this \<notin> ctxs w')"
proof -
  from wf_sys_session [of drv xs] assms(1) have "wf_registry this w" by (simp add: wf_sys_def)
  then have live: "\<forall>p \<in> snd ` set (m_devices this). p \<in> dom (objs w)"
    and dist: "distinct (map snd (m_devices this))" by (simp_all add: wf_registry_def)
  obtain r1 w1 where d: "delete_each drv (m_devices this) w = (r1, w1)"
    by (cases "delete_each drv (m_devices this) w")
  from delete_each_steps [OF live dist d] obtain evs where
    evs: "events w1 = events w @ evs" "prefix evs (close_calls w (m_devices this))"
      "r1 = Inl DeviceCloseError \<or> r1 = Inr ()"
      "r1 = Inr () \<longrightarrow> evs = close_calls w (m_devices this) \<and>
         (\<forall>p \<in> snd ` set (m_devices this). objs w1 p = None)"
    by blast
  show ?thesis
  proof (cases "r1 = Inr ()")
    case False
    with evs(3) have "r1 = Inl DeviceCloseError" by simp
    with d assms(2) have "r = Inl DeviceCloseError" "w' = w1" by (simp_all add: Freenect_dtor_def)
    with evs(1,2) show ?thesis by (auto simp add: teardown_steps_def)
  next
    case True
    obtain st w4 where t: "freenect_shutdown drv (m_ctx this) (snd (pthread_join drv (m_thread this)
        (emit StopSignalled w1))) = (st, w4)"
      by (cases "freenect_shutdown drv (m_ctx this) (snd (pthread_join drv (m_thread this)
        (emit StopSignalled w1)))")
    from teardown_tail [OF t] have tail:
      "events w4 = events w1 @ [StopSignalled, Call (PthreadJoin (m_thread this)),
         Call (Shutdown (m_ctx this))]" "objs w4 = objs w1" "m_thread this \<notin> threads w4"
      "st = 0 \<longrightarrow> m_ctx this \<notin> ctxs w4"
      by (simp_all split: if_splits)
    from d True t assms(2) have res: "w' = w4" "this' = this\<lparr>m_stop := True\<rparr>"
      "r = (if st \<noteq> 0 then Inl ShutdownError else Inr ())"
      by (simp_all add: Freenect_dtor_def Let_def split: if_splits)
    from True evs(4) have full: "evs = close_calls w (m_devices this)"
      "\<forall>p \<in> snd ` set (m_devices this). objs w1 p = None" by simp_all
    let ?evs = "teardown_steps this w"
    have "events w' = events w @ ?evs"
      using res(1) tail(1) evs(1) full(1) by (simp add: teardown_steps_def)
    moreover have "prefix ?evs (teardown_steps this w)" by simp
    moreover have "r = Inl DeviceCloseError \<or> r = Inl ShutdownError \<or> r = Inr ()"
      using res(3) by simp
    moreover have "m_stop this'" using res(2) by simp
    moreover have "m_thread this \<notin> threads w'" using res(1) tail(3) by simp
    moreover have "\<forall>p \<in> snd ` set (m_devices this). objs w' p = None"
      using res(1) tail(2) full(2) by simp
    moreover have "r = Inr () \<longrightarrow> m_ctx this \<notin> ctxs w'"
      using res(1,3) tail(4) by (simp split: if_splits)
    ultimately show ?thesis by blast
  qed
qed

section \<open>The claims\<close>

text \<open>
  Claim C1: \<open>deleteDevice(index)\<close> removes the registry entry of \<open>index\<close> and destroys the
  device object stored there, which closes its driver device; for an index that is not
  registered it changes nothing.

  The entry is removed (\<open>deleteDevice_keys\<close>) and an absent index changes nothing
  (\<open>deleteDevice_absent\<close>), but the object is never destroyed: \<open>erase\<close> on a map of raw
  pointers frees no pointee, and the world is returned as it was (\<open>deleteDevice_world\<close>).
  With a driver that accepts every request, after \<open>createDevice(0)\<close> and
  \<open>deleteDevice(0)\<close> the registry is empty, yet the object at address 2 is alive, its
  driver device 3 is open, and \<open>freenect_close_device\<close> has not been called.
\<close>

theorem deleteDevice_handle_survives:
  "fst (session willing [CreateDevice 0, DeleteDevice 0]) = [Inr (Ref 2), Inr Void] \<and>
   map_option m_devices (fst (snd (session willing [CreateDevice 0, DeleteDevice 0]))) = Some [] \<and>
   objs (snd (snd (session willing [CreateDevice 0, DeleteDevice 0]))) 2 = Some \<lparr>m_dev = 3\<rparr> \<and>
   devs (snd (snd (session willing [CreateDevice 0, DeleteDevice 0]))) 3 \<noteq> None \<and>
   Call (CloseDevice 3) \<notin> set (events (snd (snd (session willing [CreateDevice 0, DeleteDevice 0]))))"
  by (simp add: model_defs eval_nat_numeral)

text \<open>
  Claim C2: when the constructor of \<open>Freenect\<close> has initialised the driver context and
  \<open>pthread_create\<close> then fails, it throws the thread-start error and releases the context
  before it exits.

  The error is thrown, but on that path nothing calls \<open>freenect_shutdown\<close>: with
  \<open>freenect_init\<close> returning 0 and \<open>pthread_create\<close> returning 1, the constructor ends
  with the context still initialised, after exactly the two calls \<open>Init\<close> and
  \<open>PthreadCreate\<close>.
\<close>

theorem Freenect_ctor_thread_failure_leaks_context:
  "fst (Freenect_ctor (failing PthreadCreate) world0) = Inl ThreadStartError \<and>
   ctxs (snd (Freenect_ctor (failing PthreadCreate) world0)) = {1} \<and>
   events (snd (Freenect_ctor (failing PthreadCreate) world0)) = [Call Init, Call PthreadCreate]"
  by (simp add: model_defs)

text \<open>
  Claim C3: teardown destroys every device object left in the registry (closing each
  driver device), then sets the stop flag, then joins the pump thread, and only after the
  join releases the driver context; a \<open>ShutdownError\<close> is raised only after the join and
  after all entries have been freed.

  The code does so as long as no close is refused (\<open>Freenect_dtor_steps\<close>). When the
  driver refuses to close a device, \<open>~FreenectDevice\<close> throws (line 55) and the exception
  leaves the loop of line 104 and the destructor: lines 107-109 are never reached. Here two
  devices are registered and the close of the first one's device (number 3) is refused. The
  destructor ends with \<open>DeviceCloseError\<close> after that one call: the second object
  (address 4) is still alive and its device 5 still open, \<open>m_stop\<close> is still false, thread
  1 has not been joined and context 1 has not been released. Of the five steps only the
  first was taken.
\<close>

theorem Freenect_dtor_close_failure_skips_cleanup:
  "session (failing (CloseDevice 3)) [CreateDevice 0, CreateDevice 1] =
     ([Inr (Ref 2), Inr (Ref 4)], Some manager2, world2) \<and>
   teardown_steps manager2 world2 =
     [Call (CloseDevice 3), Call (CloseDevice 5), StopSignalled, Call (PthreadJoin 1),
      Call (Shutdown 1)] \<and>
   fst (Freenect_dtor (failing (CloseDevice 3)) manager2 world2) = Inl DeviceCloseError \<and>
   \<not> m_stop (fst (snd (Freenect_dtor (failing (CloseDevice 3)) manager2 world2))) \<and>
   events (snd (snd (Freenect_dtor (failing (CloseDevice 3)) manager2 world2))) =
     events world2 @ [Call (CloseDevice 3)] \<and>
   objs (snd (snd (Freenect_dtor (failing (CloseDevice 3)) manager2 world2))) 4 =
     Some \<lparr>m_dev = 5\<rparr> \<and>
   devs (snd (snd (Freenect_dtor (failing (CloseDevice 3)) manager2 world2))) 5 \<noteq> None \<and>
   threads (snd (snd (Freenect_dtor (failing (CloseDevice 3)) manager2 world2))) = {1} \<and>
   ctxs (snd (snd (Freenect_dtor (failing (CloseDevice 3)) manager2 world2))) = {1}"
proof -
  have d: "Freenect_dtor (failing (CloseDevice 3)) manager2 world2 =
     (Inl DeviceCloseError, manager2,
      world2\<lparr>objs := (objs world2)(2 := None), events := events world2 @ [Call (CloseDevice 3)]\<rparr>)"
    by (simp add: world2_fields teardown_defs manager2_def)
  have t: "teardown_steps manager2 world2 =
     [Call (CloseDevice 3), Call (CloseDevice 5), StopSignalled, Call (PthreadJoin 1),
      Call (Shutdown 1)]"
    by (simp add: world2_fields teardown_defs manager2_def)
  have m: "\<not> m_stop manager2" by (simp add: manager2_def)
  have dv: "devs world2 5 \<noteq> None"
    by (simp add: world2_def model_defs eval_nat_numeral)
  from d t m dv session_two_devices world2_fields show ?thesis by simp
qed

text \<open>
  Claim C4: the pump loop calls \<open>freenect_process_events\<close> again and again while \<open>m_stop\<close> is
  false, testing the flag before each call; once it reads the flag as true it makes no
  further call and returns, so at most one call, the one that may be in flight, happens
  after the flag was set.

  In the order of the statement: with the flag false and a driver that reports success,
  \<open>2 * n\<close> moves of the pump thread make \<open>n\<close> calls and stand at the test again; the test
  enters the body exactly when the flag is false and leaves the loop otherwise; the body is one
  call, whose non-zero status ends the thread; and for every schedule in which the pump
  thread and the destroying thread interleave, from the moment line 107 is executed at most
  one more call is made, none if the pump thread was not inside the body at that moment, and
  two further moves of the pump thread bring it to its end.
\<close>

theorem pump_loop_stop_flag:
  "(\<not> m_stop this \<and> (\<forall>h. ret drv h (ProcessEvents (m_ctx this)) = 0) \<longrightarrow>
      (\<exists>w'. interleave drv (replicate (2 * n) PumpThread) (this, TestStop, w) = (this, TestStop, w') \<and>
            pump_calls w' = pump_calls w + n)) \<and>
   pump_step drv this TestStop w = (if \<not> m_stop this then InBody else Returned, w) \<and>
   pump_step drv this InBody w =
     (if ret drv (events w) (ProcessEvents (m_ctx this)) \<noteq> 0 then Threw else TestStop,
      emit (Call (ProcessEvents (m_ctx this))) w) \<and>
   (interleave drv pre s0 = (this1, pc1, w1) \<and>
    interleave drv (pre @ Destroyer # post) s0 = (this2, pc2, w2) \<longrightarrow>
      pump_calls w2 \<le> pump_calls w1 + 1 \<and>
      (pc1 \<noteq> InBody \<longrightarrow> pump_calls w2 \<le> pump_calls w1) \<and>
      (2 \<le> pump_moves post \<longrightarrow> pc2 = Returned \<or> pc2 = Threw))"
proof (intro conjI impI)
  assume "\<not> m_stop this \<and> (\<forall>h. ret drv h (ProcessEvents (m_ctx this)) = 0)"
  then show "\<exists>w'. interleave drv (replicate (2 * n) PumpThread) (this, TestStop, w) = (this, TestStop, w') \<and>
            pump_calls w' = pump_calls w + n"
    using pump_repeats [of this drv n w] by simp
next
  show "pump_step drv this TestStop w = (if \<not> m_stop this then InBody else Returned, w)"
    by (simp add: pump_step_TestStop)
next
  show "pump_step drv this InBody w =
     (if ret drv (events w) (ProcessEvents (m_ctx this)) \<noteq> 0 then Threw else TestStop,
      emit (Call (ProcessEvents (m_ctx this))) w)"
    by (rule pump_step_InBody)
next
  assume a: "interleave drv pre s0 = (this1, pc1, w1) \<and>
    interleave drv (pre @ Destroyer # post) s0 = (this2, pc2, w2)"
  then have "interleave drv post (step drv Destroyer (this1, pc1, w1)) = (this2, pc2, w2)"
    by (auto simp add: interleave_append)
  then have run: "interleave drv post (this1\<lparr>m_stop := True\<rparr>, pc1, emit StopSignalled w1)
      = (this2, pc2, w2)"
    by simp
  have set: "m_stop (this1\<lparr>m_stop := True\<rparr>)" by simp
  note fact = after_stop [OF set run]
  from fact show "pump_calls w2 \<le> pump_calls w1 + 1"
    by (simp add: pump_calls_emit split: if_splits)
  from fact show "pc1 \<noteq> InBody \<Longrightarrow> pump_calls w2 \<le> pump_calls w1"
    by (simp add: pump_calls_emit split: if_splits)
  from fact show "2 \<le> pump_moves post \<Longrightarrow> pc2 = Returned \<or> pc2 = Threw"
    by simp
qed

theorem pump_loop_stop_flag_witness:
  "\<not> m_stop manager0 \<and>
   interleave willing [PumpThread] (manager0, TestStop, world0) = (manager0, InBody, world0) \<and>
   interleave willing ([PumpThread] @ Destroyer # [PumpThread, PumpThread]) (manager0, TestStop, world0) =
     (manager0\<lparr>m_stop := True\<rparr>, Returned,
      world0\<lparr>events := [StopSignalled, Call (ProcessEvents 1)]\<rparr>) \<and>
   pump_calls (world0\<lparr>events := [StopSignalled, Call (ProcessEvents 1)]\<rparr>) \<le> pump_calls world0 + 1 \<and>
   pump_moves [PumpThread, PumpThread] = 2 \<and>
   (\<exists>w'. interleave willing (replicate (2 * 3) PumpThread) (manager0, TestStop, world0) =
            (manager0, TestStop, w') \<and> pump_calls w' = pump_calls world0 + 3)"
proof -
  have a: "interleave willing [PumpThread] (manager0, TestStop, world0) = (manager0, InBody, world0)"
    by (simp add: pump_defs)
  have b: "interleave willing ([PumpThread] @ Destroyer # [PumpThread, PumpThread])
      (manager0, TestStop, world0) =
     (manager0\<lparr>m_stop := True\<rparr>, Returned,
      world0\<lparr>events := [StopSignalled, Call (ProcessEvents 1)]\<rparr>)"
    by (simp add: pump_defs)
  have c: "\<not> m_stop manager0 \<and> (\<forall>h. ret willing h (ProcessEvents (m_ctx manager0)) = 0)"
    by (simp add: manager0_def willing_def)
  from pump_loop_stop_flag [of manager0 willing 3 world0 "[PumpThread]" "(manager0, TestStop, world0)"
      manager0 InBody world0 "[PumpThread, PumpThread]" "manager0\<lparr>m_stop := True\<rparr>" Returned
      "world0\<lparr>events := [StopSignalled, Call (ProcessEvents 1)]\<rparr>"] a b c
  show ?thesis by (simp add: pump_moves_def)
qed

text \<open>
  Claim C5: for every index, when the driver refuses to open the device at that index,
  \<open>createDevice(index)\<close> throws the device-open error and the registry is unchanged. The
  \<open>Freenect\<close> object comes back as it was, no device object and no driver device has
  been added, and the only call made is the refused \<open>freenect_open_device\<close>.
\<close>

theorem createDevice_open_failure:
  assumes "ret drv (events w) (OpenDevice (m_ctx this) index) \<noteq> 0"
  shows "\<exists>w'. createDevice drv index this w = (Inl DeviceOpenError, this, w') \<and>
              objs w' = objs w \<and> devs w' = devs w \<and>
              events w' = events w @ [Call (OpenDevice (m_ctx this) index)]"
proof (cases "new_T drv (m_ctx this) index w")
  case (Pair r w')
  show ?thesis
  proof (cases r)
    case (Inl e)
    with Pair new_T_fail [of drv "m_ctx this" index w e w']
    have "e = DeviceOpenError" "w' = emit (Call (OpenDevice (m_ctx this) index)) (snd (alloc w))"
      by simp_all
    with Pair Inl show ?thesis by (simp add: createDevice_def)
  next
    case (Inr p)
    with Pair new_T_ok [of drv "m_ctx this" index w p w'] assms show ?thesis by simp
  qed
qed

theorem createDevice_open_failure_witness:
  "ret (failing (OpenDevice 1 7)) (events world0) (OpenDevice (m_ctx manager0) 7) \<noteq> 0 \<and>
   fst (createDevice (failing (OpenDevice 1 7)) 7 manager0 world0) = Inl DeviceOpenError \<and>
   m_devices (fst (snd (createDevice (failing (OpenDevice 1 7)) 7 manager0 world0))) = []"
proof -
  have h: "ret (failing (OpenDevice 1 7)) (events world0) (OpenDevice (m_ctx manager0) 7) \<noteq> 0"
    by (simp add: failing_def manager0_def)
  from createDevice_open_failure [OF h] h show ?thesis
    by (auto simp add: manager0_def)
qed

text \<open>
  Claim C6: for every depth or RGB frame the driver delivers for the device of a live
  device object, the registered trampoline reads the device's user pointer, finds that very
  object, and calls its \<open>DepthCallback\<close> / \<open>RGBCallback\<close> exactly once with the buffer and
  the timestamp the driver supplied. The log grows by the \<open>freenect_get_user\<close> call and that
  one invocation, in every state a session can reach.
\<close>

theorem frame_reaches_owning_handle:
  assumes "session drv xs = (rs, fo, w)" and "objs w h = Some obj"
  shows "deliver_depth drv (m_dev obj) depth timestamp w =
           (Inr (), emit (DepthCallback h depth timestamp) (emit (Call (GetUser (m_dev obj))) w)) \<and>
         deliver_rgb drv (m_dev obj) rgb timestamp w =
           (Inr (), emit (RGBCallback h rgb timestamp) (emit (Call (GetUser (m_dev obj))) w))"
proof -
  from wf_sys_session [of drv xs] assms(1) have "wf_world w" by (simp add: wf_sys_def)
  from this assms(2) obtain fd where fd: "devs w (m_dev obj) = Some fd" "user fd = Some h"
    "depth_cb fd = Some Fn_freenect_depth_callback" "rgb_cb fd = Some Fn_freenect_rgb_callback"
    by (rule wf_world_handle)
  from fd assms(2) show ?thesis
    by (simp add: deliver_depth_def deliver_rgb_def freenect_depth_callback_def
        freenect_rgb_callback_def freenect_get_user_eq virtual_call_def)
qed

theorem frame_reaches_owning_handle_witness:
  "session willing [CreateDevice 0] = ([Inr (Ref 2)], Some manager1, world1) \<and>
   objs world1 2 = Some \<lparr>m_dev = 3\<rparr> \<and>
   deliver_depth willing 3 77 100 world1 =
     (Inr (), emit (DepthCallback 2 77 100) (emit (Call (GetUser 3)) world1)) \<and>
   deliver_rgb willing 3 78 150 world1 =
     (Inr (), emit (RGBCallback 2 78 150) (emit (Call (GetUser 3)) world1))"
  using frame_reaches_owning_handle [OF session_one_device_eq world1_fields(1), of 77 100 78]
    frame_reaches_owning_handle [OF session_one_device_eq world1_fields(1), of 77 150 78]
    session_one_device_eq world1_fields(1)
  by simp

text \<open>
  Claim C7: after a serial sequence of successful \<open>createDevice\<close> and \<open>deleteDevice\<close> calls
  on a newly constructed \<open>Freenect\<close>, the key set of the registry is exactly the set of
  indices that were created and not deleted afterwards: those \<open>i\<close> for which the sequence
  has a \<open>createDevice(i)\<close> with no \<open>deleteDevice(i)\<close> after it. This holds for every such
  sequence, whether or not its indices are distinct.
\<close>

theorem registry_keys_created_not_deleted:
  assumes "session drv xs = (rs, fo, w)"
    and "\<forall>x \<in> set xs. is_registry_op x"
    and "\<forall>r \<in> set rs. ok r"
  shows "\<exists>this. fo = Some this \<and> keys (m_devices this) = created_not_deleted xs \<and>
           keys (m_devices this) =
             {i. \<exists>pre post. xs = pre @ CreateDevice i # post \<and> DeleteDevice i \<notin> set post}"
proof (cases "Freenect_ctor drv world0")
  case (Pair r0 w0)
  show ?thesis
  proof (cases r0)
    case (Inl e)
    with Pair assms(1) have "rs = [Inl e]" by (simp add: session_def)
    with assms(3) show ?thesis by simp
  next
    case (Inr this0)
    with Pair assms(1) have run: "run drv xs (Some this0, w0) = (rs, fo, w)"
      by (simp add: session_def)
    from Pair Inr Freenect_ctor_ok [of drv world0 this0 w0] have "m_devices this0 = []" by simp
    with run_registry [OF assms(2) run assms(3)] obtain this where
      "fo = Some this" "keys (m_devices this) = created_not_deleted xs"
      by (auto simp add: keys_def)
    moreover have "created_not_deleted xs =
        {i. \<exists>pre post. xs = pre @ CreateDevice i # post \<and> DeleteDevice i \<notin> set post}"
      using created_not_deleted_iff [of _ xs] by blast
    ultimately show ?thesis by simp
  qed
qed

theorem registry_keys_created_not_deleted_witness:
  "fst (session willing [CreateDevice 0, CreateDevice 1, DeleteDevice 0]) =
     [Inr (Ref 2), Inr (Ref 4), Inr Void] \<and>
   created_not_deleted [CreateDevice 0, CreateDevice 1, DeleteDevice 0] = {1} \<and>
   (\<exists>this. fst (snd (session willing [CreateDevice 0, CreateDevice 1, DeleteDevice 0])) = Some this \<and>
          keys (m_devices this) = {1})"
proof -
  let ?xs = "[CreateDevice 0, CreateDevice 1, DeleteDevice 0]"
  have rs: "fst (session willing ?xs) = [Inr (Ref 2), Inr (Ref 4), Inr Void]"
    by (simp add: model_defs eval_nat_numeral)
  have a: "\<forall>x \<in> set ?xs. is_registry_op x" by simp
  have b: "\<forall>r \<in> set (fst (session willing ?xs)). ok r" by (simp add: rs)
  have c: "created_not_deleted ?xs = {1}" by simp
  have s: "session willing ?xs =
      (fst (session willing ?xs), fst (snd (session willing ?xs)), snd (snd (session willing ?xs)))"
    by simp
  from registry_keys_created_not_deleted [OF s a b] c
  have "\<exists>this. fst (snd (session willing ?xs)) = Some this \<and> keys (m_devices this) = {1}"
    by auto
  with rs c show ?thesis by simp
qed

text \<open>
  Claim C8: the driver-side user pointer of a device object's driver device is set to the
  object's own address at construction and is never pointed elsewhere while the object is
  alive. In every state a session can reach, for every live device object: the user pointer
  of its driver device is its address; the log holds the \<open>freenect_set_user\<close> call that
  stored it; and every \<open>freenect_set_user\<close> call ever made for that driver device carried
  this address.
\<close>

theorem user_pointer_is_the_handle:
  assumes "session drv xs = (rs, fo, w)" and "objs w h = Some obj"
  shows "(\<exists>fd. devs w (m_dev obj) = Some fd \<and> user fd = Some h) \<and>
         Call (SetUser (m_dev obj) h) \<in> set (events w) \<and>
         (\<forall>p. Call (SetUser (m_dev obj) p) \<in> set (events w) \<longrightarrow> p = h)"
proof -
  from wf_sys_session [of drv xs] assms(1) have "wf_world w" by (simp add: wf_sys_def)
  from this assms(2) obtain fd where "devs w (m_dev obj) = Some fd" "user fd = Some h"
    by (rule wf_world_handle)
  then have a: "\<exists>fd. devs w (m_dev obj) = Some fd \<and> user fd = Some h" by blast
  from written_once_session [of drv xs] assms(1) have wo: "written_once w" by simp
  with assms(2) have b: "Call (SetUser (m_dev obj) h) \<in> set (events w)"
    unfolding written_once_def by blast
  from wo b have c: "\<forall>p. Call (SetUser (m_dev obj) p) \<in> set (events w) \<longrightarrow> p = h"
    unfolding written_once_def by blast
  from a b c show ?thesis by blast
qed

theorem user_pointer_is_the_handle_witness:
  "session willing [CreateDevice 0] = ([Inr (Ref 2)], Some manager1, world1) \<and>
   objs world1 2 = Some \<lparr>m_dev = 3\<rparr> \<and>
   (\<exists>fd. devs world1 3 = Some fd \<and> user fd = Some 2) \<and>
   Call (SetUser 3 2) \<in> set (events world1)"
  using user_pointer_is_the_handle [OF session_one_device_eq world1_fields(1)]
    session_one_device_eq world1_fields(1)
  by simp

text \<open>
  Claim C9: each of \<open>startRGB\<close>, \<open>stopRGB\<close>, \<open>startDepth\<close>, \<open>stopDepth\<close>,
  \<open>setTiltDegrees\<close>, \<open>setLed\<close> and the two \<open>getAccelerometers\<close> overloads throws its own
  error if and only if its driver call returns a non-zero status, returns normally if and
  only if the status is zero, and makes that one driver call and no other (no retry).
\<close>

theorem device_operations_surface_driver_status:
  "surfaces (startRGB drv this w) drv w (RgbStart (m_dev this)) ''Cannot start RGB callback'' \<and>
   surfaces (stopRGB drv this w) drv w (RgbStop (m_dev this)) ''Cannot stop RGB callback'' \<and>
   surfaces (startDepth drv this w) drv w (DepthStart (m_dev this)) ''Cannot start depth callback'' \<and>
   surfaces (stopDepth drv this w) drv w (DepthStop (m_dev this)) ''Cannot stop depth callback'' \<and>
   surfaces (setTiltDegrees drv this angle w) drv w (SetTiltDegs (m_dev this) angle)
     ''Cannot set angle in degrees'' \<and>
   surfaces (setLed drv this option w) drv w (SetLedOption (m_dev this) option) ''Cannot set led'' \<and>
   surfaces (getAccelerometers_mks drv this w) drv w (GetMksAccel (m_dev this))
     ''Cannot get mks accemerometers'' \<and>
   surfaces (getAccelerometers_raw drv this w) drv w (GetRawAccel (m_dev this))
     ''Cannot get raw accemerometers''"
  by (simp add: startRGB_def stopRGB_def startDepth_def stopDepth_def setTiltDegrees_def
      setLed_def guarded_surfaces accel_surfaces)

theorem device_operations_surface_driver_status_witness:
  "fst (stopDepth (failing (DepthStop 3)) \<lparr>m_dev = 3\<rparr> world0) =
     Inl (runtime_error ''Cannot stop depth callback'') \<and>
   fst (stopDepth willing \<lparr>m_dev = 3\<rparr> world0) = Inr () \<and>
   events (snd (stopDepth willing \<lparr>m_dev = 3\<rparr> world0)) = [Call (DepthStop 3)]"
  using device_operations_surface_driver_status [of "failing (DepthStop 3)" "\<lparr>m_dev = 3\<rparr>" world0 0 0]
    device_operations_surface_driver_status [of willing "\<lparr>m_dev = 3\<rparr>" world0 0 0]
  by (simp add: surfaces_def failing_def willing_def world0_def emit_def)

text \<open>
  Claim C10: when \<open>createDevice(index)\<close> is called while \<open>index\<close> is registered and the
  driver opens a new device, the registry is left as it was and the reference returned is
  to the object registered before, not to the one just constructed. The new object, at the
  next free address, is alive and in no registry entry.
\<close>

theorem createDevice_existing_index:
  assumes "session drv xs = (rs, Some this, w)"
    and "map_at (m_devices this) index = Some old"
    and "ret drv (events w) (OpenDevice (m_ctx this) index) = 0"
  shows "\<exists>this' w'. createDevice drv index this w = (Inr old, this', w') \<and>
           m_devices this' = m_devices this \<and>
           new_T drv (m_ctx this) index w = (Inr (next_ptr w), w') \<and>
           objs w' (next_ptr w) = Some \<lparr>m_dev = Suc (next_ptr w)\<rparr> \<and>
           old \<noteq> next_ptr w \<and> next_ptr w \<notin> snd ` set (m_devices this')"
proof -
  from wf_sys_session [of drv xs] assms(1) have wf: "wf_world w" "wf_registry this w"
    by (simp_all add: wf_sys_def)
  from assms(2) have mem: "(index, old) \<in> set (m_devices this)"
    by (simp add: map_at_def map_of_SomeD)
  then have key: "index \<in> fst ` set (m_devices this)" by force
  have below: "\<And>p. p \<in> snd ` set (m_devices this) \<Longrightarrow> p < next_ptr w"
  proof -
    fix p assume "p \<in> snd ` set (m_devices this)"
    with wf(2) obtain obj where "objs w p = Some obj" by (auto simp add: wf_registry_def)
    with wf(1) show "p < next_ptr w" by (rule wf_world_obj_bound)
  qed
  from mem have "old \<in> snd ` set (m_devices this)" by force
  with below have old: "old \<noteq> next_ptr w" by blast
  from below have unreg: "next_ptr w \<notin> snd ` set (m_devices this)" by blast
  obtain r w' where n: "new_T drv (m_ctx this) index w = (r, w')"
    by (cases "new_T drv (m_ctx this) index w")
  show ?thesis
  proof (cases r)
    case (Inl e)
    with n new_T_fail [of drv "m_ctx this" index w e w'] assms(3) show ?thesis by simp
  next
    case (Inr p)
    with n new_T_ok [of drv "m_ctx this" index w p w']
    have p: "p = next_ptr w" and o: "objs w' = (objs w)(p \<mapsto> \<lparr>m_dev = Suc p\<rparr>)" by simp_all
    from n Inr key assms(2) have "createDevice drv index this w = (Inr old, this, w')"
      by (simp add: createDevice_def map_insert_def)
    with n Inr p o old unreg show ?thesis by simp
  qed
qed

theorem createDevice_existing_index_witness:
  "session willing [CreateDevice 0] = ([Inr (Ref 2)], Some manager1, world1) \<and>
   map_at (m_devices manager1) 0 = Some 2 \<and>
   ret willing (events world1) (OpenDevice (m_ctx manager1) 0) = 0 \<and>
   fst (createDevice willing 0 manager1 world1) = Inr 2 \<and>
   m_devices (fst (snd (createDevice willing 0 manager1 world1))) = [(0, 2)] \<and>
   objs (snd (snd (createDevice willing 0 manager1 world1))) 4 = Some \<lparr>m_dev = 5\<rparr>"
proof -
  have a: "map_at (m_devices manager1) 0 = Some 2" by (simp add: manager1_def map_at_def)
  have b: "ret willing (events world1) (OpenDevice (m_ctx manager1) 0) = 0"
    by (simp add: willing_def)
  from createDevice_existing_index [OF session_one_device_eq a b] a b session_one_device_eq
  show ?thesis by (auto simp add: world1_fields manager1_def)
qed

end
